theory Spec2Isabelle
  imports Main "HOL-Library.Char_ord" "HOL-Library.List_Lexorder"
begin

section \<open>Values, sets of logins, requests and replies\<close>

text \<open>
  A decoded JSON document, as \<open>resp.json()\<close> hands it to the script.  A \<open>char\<close> stands
  for one code point (the model covers code points below 256, which is exact for header
  text), numbers are the integral ones, and the keys of a \<open>JDict\<close> are pairwise distinct,
  in insertion order, as in a Python \<open>dict\<close>.
\<close>

datatype json =
    JNull
  | JBool bool
  | JNum int
  | JStr string
  | JList "json list"
  | JDict "(string \<times> json) list"

text \<open>
  The members of a Python \<open>set\<close> built by the fetchers: the hashable truthy values a
  \<open>login\<close> can be.  \<open>True\<close> and \<open>1\<close> are one and the same set member in Python, so
  both are \<open>KNum 1\<close>.
\<close>

datatype key = KStr string | KNum int

datatype exit_reason =
    TeamFetchFailed int        \<comment> \<open>"Failed to fetch team memberships: HTTP ..."\<close>
  | TeamNonJSON                \<comment> \<open>"Non-JSON response from API"\<close>
  | CostCenterFetchFailed int  \<comment> \<open>"Failed to fetch cost center: HTTP ..."\<close>
  | CostCenterNonJSON          \<comment> \<open>"Non-JSON response from cost center API"\<close>

datatype error =
    SystemExit exit_reason
  | AttributeError
  | TypeError
  | RequestException           \<comment> \<open>timeout or connection error raised by \<open>requests\<close>\<close>

datatype verb = GET | POST | DELETE

record request =
  req_verb :: verb
  req_url :: string
  req_headers :: "(string \<times> string) list"
  req_users :: "key list"      \<comment> \<open>the body \<open>{"users": [username]}\<close>; empty for a GET\<close>

record response =
  status_code :: int
  json_body :: "json option"   \<comment> \<open>\<open>None\<close>: \<open>resp.json()\<close> raises\<close>
  link :: "string option"          \<comment> \<open>\<open>resp.headers.get("Link")\<close>\<close>

datatype reply = Response response | Raises

text \<open>
  The remote service: what it answers to a request, given every request issued before.
  The list of requests issued so far is the only state the script shares with it.
\<close>

type_synonym transport = "request list \<Rightarrow> request \<Rightarrow> reply"

record config =
  base :: string
  enterprise :: string
  team_slug :: string
  cost_center_id :: string
  token :: string

record summary =
  removed :: "(nat \<times> nat) option"  \<comment> \<open>\<open>removed_count\<close> and \<open>len(to_remove)\<close>, when the phase runs\<close>
  added :: "(nat \<times> nat) option"    \<comment> \<open>\<open>added_count\<close> and \<open>len(to_add)\<close>, when the phase runs\<close>
  in_sync :: bool                    \<comment> \<open>"already in sync" is reported\<close>

section \<open>Python primitives the script relies on\<close>

fun truthy :: "json \<Rightarrow> bool" where
  "truthy JNull = False"
| "truthy (JBool b) = b"
| "truthy (JNum n) = (n \<noteq> 0)"
| "truthy (JStr s) = (s \<noteq> [])"
| "truthy (JList xs) = (xs \<noteq> [])"
| "truthy (JDict kvs) = (kvs \<noteq> [])"

definition py_or :: "json \<Rightarrow> json \<Rightarrow> json" where
  "py_or a b = (if truthy a then a else b)"

definition dict_get :: "(string \<times> json) list \<Rightarrow> string \<Rightarrow> json" where
  "dict_get kvs k = (case map_of kvs k of Some v \<Rightarrow> v | None \<Rightarrow> JNull)"

definition is_space :: "char \<Rightarrow> bool" where
  "is_space c = (of_char c \<in> {9, 10, 11, 12, 13, 28, 29, 30, 31, 32, 133, 160 :: nat})"

definition strip :: "string \<Rightarrow> string" where
  "strip s = rev (dropWhile is_space (rev (dropWhile is_space s)))"

fun split_on :: "char \<Rightarrow> string \<Rightarrow> string list" where
  "split_on c [] = [[]]"
| "split_on c (x # xs) =
     (if x = c then [] # split_on c xs
      else (case split_on c xs of p # ps \<Rightarrow> (x # p) # ps | [] \<Rightarrow> [[x]]))"

fun starts_with :: "string \<Rightarrow> string \<Rightarrow> bool" where
  "starts_with [] s = True"
| "starts_with (p # ps) [] = False"
| "starts_with (p # ps) (c # cs) = (p = c \<and> starts_with ps cs)"

fun contains :: "string \<Rightarrow> string \<Rightarrow> bool" where
  "contains sub [] = (sub = [])"
| "contains sub (c # cs) = (starts_with sub (c # cs) \<or> contains sub cs)"

fun str_find :: "char \<Rightarrow> string \<Rightarrow> int" where
  "str_find c [] = - 1"
| "str_find c (x # xs) =
     (if x = c then 0 else (let i = str_find c xs in if i < 0 then - 1 else i + 1))"

definition slice :: "string \<Rightarrow> int \<Rightarrow> int \<Rightarrow> string" where
  \<comment> \<open>\<open>s[i:j]\<close> for \<open>0 \<le> i\<close> and \<open>0 \<le> j\<close>, the only way the script calls it\<close>
  "slice s i j = take (nat j - nat i) (drop (nat i) s)"

text \<open>\<open>"k" in data\<close>, \<open>data.get("k", default)\<close> and \<open>for x in data\<close> on any decoded value.\<close>

fun py_in :: "string \<Rightarrow> json \<Rightarrow> error + bool" where
  "py_in k (JDict kvs) = Inr (k \<in> fst ` set kvs)"
| "py_in k (JList xs) = Inr (JStr k \<in> set xs)"
| "py_in k (JStr s) = Inr (contains k s)"
| "py_in k JNull = Inl TypeError"
| "py_in k (JBool b) = Inl TypeError"
| "py_in k (JNum n) = Inl TypeError"

fun py_get :: "json \<Rightarrow> string \<Rightarrow> json \<Rightarrow> error + json" where
  "py_get (JDict kvs) k d = Inr (case map_of kvs k of Some v \<Rightarrow> v | None \<Rightarrow> d)"
| "py_get JNull k d = Inl AttributeError"
| "py_get (JBool b) k d = Inl AttributeError"
| "py_get (JNum n) k d = Inl AttributeError"
| "py_get (JStr s) k d = Inl AttributeError"
| "py_get (JList xs) k d = Inl AttributeError"

fun py_iter :: "json \<Rightarrow> error + json list" where
  "py_iter (JList xs) = Inr xs"
| "py_iter (JStr s) = Inr (map (\<lambda>c. JStr [c]) s)"
| "py_iter (JDict kvs) = Inr (map (\<lambda>kv. JStr (fst kv)) kvs)"
| "py_iter JNull = Inl TypeError"
| "py_iter (JBool b) = Inl TypeError"
| "py_iter (JNum n) = Inl TypeError"

text \<open>\<open>if login: logins.add(login)\<close>: a falsy value is skipped, an unhashable one raises.\<close>

fun add_login :: "json \<Rightarrow> key set \<Rightarrow> error + key set" where
  "add_login JNull S = Inr S"
| "add_login (JBool b) S = Inr (if b then insert (KNum 1) S else S)"
| "add_login (JNum n) S = Inr (if n \<noteq> 0 then insert (KNum n) S else S)"
| "add_login (JStr s) S = Inr (if s \<noteq> [] then insert (KStr s) S else S)"
| "add_login (JList xs) S = (if xs \<noteq> [] then Inl TypeError else Inr S)"
| "add_login (JDict kvs) S = (if kvs \<noteq> [] then Inl TypeError else Inr S)"

text \<open>
  \<open>sorted(s)\<close> on a set of logins: strings compare by code point, numbers by value, and
  comparing a string with a number raises.
\<close>

fun is_str :: "key \<Rightarrow> bool" where
  "is_str (KStr s) = True"
| "is_str (KNum n) = False"

fun the_str :: "key \<Rightarrow> string" where
  "the_str (KStr s) = s"
| "the_str (KNum n) = []"

fun the_num :: "key \<Rightarrow> int" where
  "the_num (KNum n) = n"
| "the_num (KStr s) = 0"

definition py_sorted :: "key set \<Rightarrow> error + key list" where
  "py_sorted S =
     (if \<forall>k\<in>S. is_str k then Inr (map KStr (sorted_list_of_set (the_str ` S)))
      else if \<forall>k\<in>S. \<not> is_str k then Inr (map KNum (sorted_list_of_set (the_num ` S)))
      else Inl TypeError)"

section \<open>The pagination link\<close>

fun next_in_parts :: "string list \<Rightarrow> string option" where
  "next_in_parts [] = None"
| "next_in_parts (part # parts) =
     (if contains ''rel=\"next\"'' part then
        (let start = str_find CHR ''<'' part + 1; end = str_find CHR ''>'' part
         in if start > 0 \<and> end > start then Some (slice part start end)
            else next_in_parts parts)
      else next_in_parts parts)"

definition parse_next_link :: "string option \<Rightarrow> string option" where
  "parse_next_link link_header =
     (case link_header of
        None \<Rightarrow> None
      | Some h \<Rightarrow> if h = [] then None else next_in_parts (map strip (split_on CHR '','' h)))"

section \<open>The membership extractor\<close>

fun the_list :: "json \<Rightarrow> json list" where
  "the_list (JList xs) = xs"
| "the_list v = []"

fun is_dict :: "json \<Rightarrow> bool" where
  "is_dict (JDict kvs) = True"
| "is_dict v = False"

fun first_list_field :: "string list \<Rightarrow> (string \<times> json) list \<Rightarrow> json list option" where
  "first_list_field [] kvs = None"
| "first_list_field (k # ks) kvs =
     (case map_of kvs k of
        Some (JList xs) \<Rightarrow> Some xs
      | _ \<Rightarrow> first_list_field ks kvs)"

fun looks_like_records :: "json \<Rightarrow> bool" where
  "looks_like_records (JList []) = True"
| "looks_like_records (JList (x # xs)) = is_dict x"
| "looks_like_records v = False"

definition priority_fields :: "string list" where
  "priority_fields = [''memberships'', ''items'', ''value'', ''data'']"

fun extract_memberships :: "json \<Rightarrow> json list" where
  "extract_memberships (JList xs) = xs"
| "extract_memberships (JDict kvs) =
     (case first_list_field priority_fields kvs of
        Some xs \<Rightarrow> xs
      | None \<Rightarrow>
         (case find looks_like_records (map snd kvs) of
            Some v \<Rightarrow> the_list v
          | None \<Rightarrow> []))"
| "extract_memberships v = []"

text \<open>
  One pass of \<open>for m in memberships\<close>: \<open>membership_login\<close> is the value of \<open>login\<close>
  when the script tests it (\<open>JNull\<close> is Python's \<open>None\<close>).
\<close>

definition membership_login :: "(string \<times> json) list \<Rightarrow> json" where
  "membership_login m =
     (let user = py_or (dict_get m ''user'') (JDict []);
          login = (case user of JDict u \<Rightarrow> dict_get u ''login'' | _ \<Rightarrow> JNull)
      in py_or login (dict_get m ''login''))"

fun add_memberships :: "json list \<Rightarrow> key set \<Rightarrow> error + key set" where
  "add_memberships [] logins = Inr logins"
| "add_memberships (JDict m # ms) logins =
     (case add_login (membership_login m) logins of
        Inl e \<Rightarrow> Inl e
      | Inr logins' \<Rightarrow> add_memberships ms logins')"
| "add_memberships (v # ms) logins = add_memberships ms logins"

section \<open>The two fetchers\<close>

definition github_headers :: "string \<Rightarrow> (string \<times> string) list" where
  "github_headers tok =
     [(''Authorization'', ''Bearer '' @ tok),
      (''Accept'', ''application/vnd.github+json''),
      (''X-GitHub-Api-Version'', ''2022-11-28'')]"

definition get_request :: "config \<Rightarrow> string \<Rightarrow> request" where
  "get_request cfg url =
     \<lparr>req_verb = GET, req_url = url, req_headers = github_headers (token cfg), req_users = []\<rparr>"

definition team_url :: "config \<Rightarrow> string" where
  "team_url cfg =
     base cfg @ ''/enterprises/'' @ enterprise cfg @ ''/teams/'' @ team_slug cfg @ ''/memberships''"

definition cost_center_url :: "config \<Rightarrow> string" where
  "cost_center_url cfg =
     base cfg @ ''/enterprises/'' @ enterprise cfg @ ''/settings/billing/cost-centers/''
       @ cost_center_id cfg"

definition resource_url :: "config \<Rightarrow> string" where
  "resource_url cfg = cost_center_url cfg @ ''/resource''"

text \<open>
  One iteration of the \<open>while next_url\<close> loop of \<open>fetch_enterprise_team_members\<close>, up
  to the new value of \<open>next_url\<close>.  Every function that talks to the service takes the
  requests issued so far and returns them extended, beside its result or the exception it
  raises.
\<close>

definition fetch_page ::
  "transport \<Rightarrow> config \<Rightarrow> string \<Rightarrow> key set \<Rightarrow> request list
     \<Rightarrow> (error + key set \<times> string option) \<times> request list" where
  "fetch_page tr cfg url logins log =
     (let req = get_request cfg url; log' = log @ [req] in
      case tr log req of
        Raises \<Rightarrow> (Inl RequestException, log')
      | Response resp \<Rightarrow>
          if status_code resp \<noteq> 200
          then (Inl (SystemExit (TeamFetchFailed (status_code resp))), log')
          else
            (case json_body resp of
               None \<Rightarrow> (Inl (SystemExit TeamNonJSON), log')
             | Some payload \<Rightarrow>
                 (case add_memberships (extract_memberships payload) logins of
                    Inl e \<Rightarrow> (Inl e, log')
                  | Inr logins' \<Rightarrow> (Inr (logins', parse_next_link (link resp)), log'))))"

text \<open>The loop itself: it stops on a falsy \<open>next_url\<close> or once \<open>page\<close> exceeds 200.\<close>

function fetch_team_pages ::
  "transport \<Rightarrow> config \<Rightarrow> string option \<Rightarrow> nat \<Rightarrow> key set \<Rightarrow> request list
     \<Rightarrow> (error + key set) \<times> request list" where
  "fetch_team_pages tr cfg next_url page logins log =
     (case next_url of
        None \<Rightarrow> (Inr logins, log)
      | Some u \<Rightarrow>
          if u = [] then (Inr logins, log)
          else
            (case fetch_page tr cfg u logins log of
               (Inl e, log') \<Rightarrow> (Inl e, log')
             | (Inr (logins', next_url'), log') \<Rightarrow>
                 if page + 1 > 200 then (Inr logins', log')
                 else fetch_team_pages tr cfg next_url' (page + 1) logins' log'))"
  by pat_completeness auto
termination
  by (relation "measure (\<lambda>(tr, cfg, next_url, page, logins, log). 200 - page)") auto

declare fetch_team_pages.simps [simp del]

definition fetch_enterprise_team_members ::
  "transport \<Rightarrow> config \<Rightarrow> request list \<Rightarrow> (error + key set) \<times> request list" where
  "fetch_enterprise_team_members tr cfg log =
     fetch_team_pages tr cfg (Some (team_url cfg)) 1 {} log"

text \<open>The cost-center fetcher: one request, then the two shapes it looks for.\<close>

definition user_login :: "json \<Rightarrow> json" where
  "user_login user =
     (case user of
        JDict u \<Rightarrow> py_or (dict_get u ''login'') (dict_get u ''username'')
      | _ \<Rightarrow> user)"

fun add_users :: "json list \<Rightarrow> key set \<Rightarrow> error + key set" where
  "add_users [] logins = Inr logins"
| "add_users (user # users) logins =
     (case add_login (user_login user) logins of
        Inl e \<Rightarrow> Inl e
      | Inr logins' \<Rightarrow> add_users users logins')"

definition users_of :: "json \<Rightarrow> error + key set" where
  \<comment> \<open>\<open>users = holder.get("users", [])\<close> and the loop over it\<close>
  "users_of holder =
     (case py_get holder ''users'' (JList []) of
        Inl e \<Rightarrow> Inl e
      | Inr users \<Rightarrow>
          (case py_iter users of
             Inl e \<Rightarrow> Inl e
           | Inr us \<Rightarrow> add_users us {}))"

definition cost_center_logins :: "json \<Rightarrow> error + key set" where
  "cost_center_logins data =
     (case py_in ''resources'' data of
        Inl e \<Rightarrow> Inl e
      | Inr True \<Rightarrow>
          (case py_get data ''resources'' (JDict []) of
             Inl e \<Rightarrow> Inl e
           | Inr resources \<Rightarrow> users_of resources)
      | Inr False \<Rightarrow>
          (case py_in ''users'' data of
             Inl e \<Rightarrow> Inl e
           | Inr True \<Rightarrow> users_of data
           | Inr False \<Rightarrow> Inr {}))"

definition fetch_cost_center_members ::
  "transport \<Rightarrow> config \<Rightarrow> request list \<Rightarrow> (error + key set) \<times> request list" where
  "fetch_cost_center_members tr cfg log =
     (let req = get_request cfg (cost_center_url cfg); log' = log @ [req] in
      case tr log req of
        Raises \<Rightarrow> (Inl RequestException, log')
      | Response resp \<Rightarrow>
          if status_code resp \<noteq> 200
          then (Inl (SystemExit (CostCenterFetchFailed (status_code resp))), log')
          else
            (case json_body resp of
               None \<Rightarrow> (Inl (SystemExit CostCenterNonJSON), log')
             | Some data \<Rightarrow> (cost_center_logins data, log')))"

section \<open>The two mutations\<close>

definition post_request :: "config \<Rightarrow> key \<Rightarrow> request" where
  "post_request cfg username =
     \<lparr>req_verb = POST, req_url = resource_url cfg, req_headers = github_headers (token cfg),
      req_users = [username]\<rparr>"

definition delete_request :: "config \<Rightarrow> key \<Rightarrow> request" where
  "delete_request cfg username =
     \<lparr>req_verb = DELETE, req_url = resource_url cfg, req_headers = github_headers (token cfg),
      req_users = [username]\<rparr>"

definition add_user_to_cost_center ::
  "transport \<Rightarrow> config \<Rightarrow> key \<Rightarrow> request list \<Rightarrow> (error + bool) \<times> request list" where
  "add_user_to_cost_center tr cfg username log =
     (let req = post_request cfg username; log' = log @ [req] in
      case tr log req of
        Raises \<Rightarrow> (Inl RequestException, log')
      | Response resp \<Rightarrow> (Inr (status_code resp \<in> {200, 201, 204}), log'))"

definition remove_user_from_cost_center ::
  "transport \<Rightarrow> config \<Rightarrow> key \<Rightarrow> request list \<Rightarrow> (error + bool) \<times> request list" where
  "remove_user_from_cost_center tr cfg username log =
     (let req = delete_request cfg username; log' = log @ [req] in
      case tr log req of
        Raises \<Rightarrow> (Inl RequestException, log')
      | Response resp \<Rightarrow> (Inr (status_code resp \<in> {200, 204}), log'))"

section \<open>The orchestrator\<close>

fun remove_loop ::
  "transport \<Rightarrow> config \<Rightarrow> key list \<Rightarrow> nat \<Rightarrow> request list \<Rightarrow> (error + nat) \<times> request list" where
  "remove_loop tr cfg [] removed_count log = (Inr removed_count, log)"
| "remove_loop tr cfg (username # rest) removed_count log =
     (case remove_user_from_cost_center tr cfg username log of
        (Inl e, log') \<Rightarrow> (Inl e, log')
      | (Inr ok, log') \<Rightarrow>
          remove_loop tr cfg rest (if ok then removed_count + 1 else removed_count) log')"

fun add_loop ::
  "transport \<Rightarrow> config \<Rightarrow> key list \<Rightarrow> nat \<Rightarrow> request list \<Rightarrow> (error + nat) \<times> request list" where
  "add_loop tr cfg [] added_count log = (Inr added_count, log)"
| "add_loop tr cfg (username # rest) added_count log =
     (case add_user_to_cost_center tr cfg username log of
        (Inl e, log') \<Rightarrow> (Inl e, log')
      | (Inr ok, log') \<Rightarrow>
          add_loop tr cfg rest (if ok then added_count + 1 else added_count) log')"

text \<open>
  The removal phase and the addition phase, each guarded by \<open>if to_remove\<close> / \<open>if to_add\<close>
  and each iterating \<open>sorted(...)\<close> of its set.
\<close>

definition remove_phase ::
  "transport \<Rightarrow> config \<Rightarrow> key set \<Rightarrow> request list
     \<Rightarrow> (error + (nat \<times> nat) option) \<times> request list" where
  "remove_phase tr cfg to_remove log =
     (if to_remove = {} then (Inr None, log)
      else
        (case py_sorted to_remove of
           Inl e \<Rightarrow> (Inl e, log)
         | Inr usernames \<Rightarrow>
             (case remove_loop tr cfg usernames 0 log of
                (Inl e, log') \<Rightarrow> (Inl e, log')
              | (Inr removed_count, log') \<Rightarrow>
                  (Inr (Some (removed_count, card to_remove)), log'))))"

definition add_phase ::
  "transport \<Rightarrow> config \<Rightarrow> key set \<Rightarrow> request list
     \<Rightarrow> (error + (nat \<times> nat) option) \<times> request list" where
  "add_phase tr cfg to_add log =
     (if to_add = {} then (Inr None, log)
      else
        (case py_sorted to_add of
           Inl e \<Rightarrow> (Inl e, log)
         | Inr usernames \<Rightarrow>
             (case add_loop tr cfg usernames 0 log of
                (Inl e, log') \<Rightarrow> (Inl e, log')
              | (Inr added_count, log') \<Rightarrow>
                  (Inr (Some (added_count, card to_add)), log'))))"

text \<open>
  Everything \<open>sync_cost_center_with_team\<close> does once \<open>to_remove\<close> and \<open>to_add\<close> are
  computed.  The two \<open>sorted\<close> calls of the analysis log lines come first: they raise
  before any mutation when a set mixes strings and numbers.
\<close>

definition apply_plan ::
  "transport \<Rightarrow> config \<Rightarrow> key set \<Rightarrow> key set \<Rightarrow> request list
     \<Rightarrow> (error + summary) \<times> request list" where
  "apply_plan tr cfg to_remove to_add log =
     (case (if to_remove \<noteq> {} then py_sorted to_remove else Inr []) of
        Inl e \<Rightarrow> (Inl e, log)
      | Inr _ \<Rightarrow>
          (case (if to_add \<noteq> {} then py_sorted to_add else Inr []) of
             Inl e \<Rightarrow> (Inl e, log)
           | Inr _ \<Rightarrow>
               (case remove_phase tr cfg to_remove log of
                  (Inl e, log1) \<Rightarrow> (Inl e, log1)
                | (Inr rem, log1) \<Rightarrow>
                    (case add_phase tr cfg to_add log1 of
                       (Inl e, log2) \<Rightarrow> (Inl e, log2)
                     | (Inr ad, log2) \<Rightarrow>
                         (Inr \<lparr>removed = rem, added = ad,
                               in_sync = (to_remove = {} \<and> to_add = {})\<rparr>, log2)))))"

definition sync_cost_center_with_team ::
  "transport \<Rightarrow> config \<Rightarrow> request list \<Rightarrow> (error + summary) \<times> request list" where
  "sync_cost_center_with_team tr cfg log =
     (case fetch_enterprise_team_members tr cfg log of
        (Inl e, log1) \<Rightarrow> (Inl e, log1)
      | (Inr team_members, log1) \<Rightarrow>
          (case fetch_cost_center_members tr cfg log1 of
             (Inl e, log2) \<Rightarrow> (Inl e, log2)
           | (Inr cost_center_members, log2) \<Rightarrow>
               (let to_remove = cost_center_members - team_members;
                    to_add = team_members - cost_center_members
                in apply_plan tr cfg to_remove to_add log2)))"

section \<open>Vocabulary of the properties\<close>

text \<open>
  Counting what a phase achieved: attempt \<open>i\<close> of a phase over \<open>usernames\<close> is answered
  given the requests before it, and succeeds when the status is one of \<open>codes\<close>.
\<close>

definition attempt_ok ::
  "transport \<Rightarrow> (key \<Rightarrow> request) \<Rightarrow> int set \<Rightarrow> key list \<Rightarrow> request list \<Rightarrow> nat \<Rightarrow> bool" where
  "attempt_ok tr mk codes usernames log i =
     (case tr (log @ map mk (take i usernames)) (mk (usernames ! i)) of
        Response resp \<Rightarrow> status_code resp \<in> codes
      | Raises \<Rightarrow> False)"

definition successes ::
  "transport \<Rightarrow> (key \<Rightarrow> request) \<Rightarrow> int set \<Rightarrow> key list \<Rightarrow> request list \<Rightarrow> nat" where
  "successes tr mk codes usernames log =
     length (filter (attempt_ok tr mk codes usernames log) [0..<length usernames])"

text \<open>
  What the fetchers treat as fatal in an answer to a read: a status other than 200 or a
  body that is not JSON.  \<open>bad_read_seen tr log new\<close>: some GET among the requests \<open>new\<close>,
  issued after \<open>log\<close>, was answered that way.
\<close>

definition bad_read :: "reply \<Rightarrow> bool" where
  "bad_read rep =
     (case rep of
        Response resp \<Rightarrow> status_code resp \<noteq> 200 \<or> json_body resp = None
      | Raises \<Rightarrow> False)"

fun bad_read_seen :: "transport \<Rightarrow> request list \<Rightarrow> request list \<Rightarrow> bool" where
  "bad_read_seen tr log [] = False"
| "bad_read_seen tr log (req # new) =
     ((req_verb req = GET \<and> bad_read (tr log req)) \<or> bad_read_seen tr (log @ [req]) new)"

text \<open>
  The identifiers one answered page contributes, and those of the pages answered to the
  requests \<open>new\<close> issued after \<open>log\<close>.
\<close>

definition page_logins :: "reply \<Rightarrow> key set" where
  "page_logins rep =
     (case rep of
        Response resp \<Rightarrow>
          (case json_body resp of
             Some payload \<Rightarrow>
               (case add_memberships (extract_memberships payload) {} of
                  Inr logins \<Rightarrow> logins
                | Inl e \<Rightarrow> {})
           | None \<Rightarrow> {})
      | Raises \<Rightarrow> {})"

fun pages_logins :: "transport \<Rightarrow> request list \<Rightarrow> request list \<Rightarrow> key set" where
  "pages_logins tr log [] = {}"
| "pages_logins tr log (req # new) = page_logins (tr log req) \<union> pages_logins tr (log @ [req]) new"

text \<open>
  Link headers as the pagination contract describes them: descriptors \<open><url>; rel="value"\<close>
  joined by a comma and the whitespace \<open>ws\<close>.  A descriptor is plain when its URL is not
  empty and holds no comma, angle bracket or double quote, and its relation value holds
  no comma or double quote.
\<close>

definition descriptor :: "string \<times> string \<Rightarrow> string" where
  "descriptor d = ''<'' @ fst d @ ''>; rel=\"'' @ snd d @ ''\"''"

fun render_links :: "string \<Rightarrow> (string \<times> string) list \<Rightarrow> string" where
  "render_links ws [] = []"
| "render_links ws [d] = descriptor d"
| "render_links ws (d # ds) = descriptor d @ '','' @ ws @ render_links ws ds"

definition plain_descriptor :: "string \<times> string \<Rightarrow> bool" where
  "plain_descriptor d =
     (fst d \<noteq> [] \<and> set (fst d) \<inter> {CHR '','', CHR ''<'', CHR ''>'', CHR ''\"''} = {}
      \<and> set (snd d) \<inter> {CHR '','', CHR ''\"''} = {})"

section \<open>Scenarios\<close>

definition demo_config :: config where
  "demo_config =
     \<lparr>base = ''https://api.x'', enterprise = ''e'', team_slug = ''t'', cost_center_id = ''c'',
      token = ''k''\<rparr>"

definition json_reply :: "json \<Rightarrow> reply" where
  "json_reply j = Response \<lparr>status_code = 200, json_body = Some j, link = None\<rparr>"

definition status_reply :: "int \<Rightarrow> reply" where
  "status_reply code = Response \<lparr>status_code = code, json_body = None, link = None\<rparr>"

definition team_get :: request where
  "team_get = get_request demo_config (team_url demo_config)"

definition cost_center_get :: request where
  "cost_center_get = get_request demo_config (cost_center_url demo_config)"

text \<open>A team of a, b, c against a cost center of b, c, d; every mutation succeeds.\<close>

definition overlap_service :: transport where
  "overlap_service log req =
     (if req_verb req \<noteq> GET then status_reply 204
      else if req_url req = team_url demo_config
      then json_reply (JList [JDict [(''login'', JStr ''a'')], JDict [(''login'', JStr ''b'')],
             JDict [(''login'', JStr ''c'')]])
      else json_reply (JDict [(''users'', JList [JStr ''b'', JStr ''c'', JStr ''d''])]))"

text \<open>A team of x, y against an empty cost center; adding x answers 500, adding y 201.\<close>

definition failing_service :: transport where
  "failing_service log req =
     (if req_verb req = GET then
        (if req_url req = team_url demo_config
         then json_reply (JList [JDict [(''login'', JStr ''x'')], JDict [(''login'', JStr ''y'')]])
         else json_reply (JDict []))
      else if req_users req = [KStr ''x''] then status_reply 500 else status_reply 201)"

text \<open>A team of alice, bob and a cost center that already holds exactly them.\<close>

definition synced_service :: transport where
  "synced_service log req =
     (if req_verb req \<noteq> GET then status_reply 204
      else if req_url req = team_url demo_config
      then json_reply (JDict [(''memberships'',
             JList [JDict [(''user'', JDict [(''login'', JStr ''alice'')])],
                    JDict [(''user'', JDict [(''login'', JStr ''bob'')])]])])
      else json_reply (JDict [(''resources'',
             JDict [(''users'', JList [JStr ''bob'', JDict [(''login'', JStr ''alice'')]])])]))"

text \<open>
  A team of zoe, adam against a cost center of mia, bob; removing bob answers 500, every
  other mutation 204.
\<close>

definition swap_service :: transport where
  "swap_service log req =
     (if req_verb req = GET then
        (if req_url req = team_url demo_config
         then json_reply (JList [JDict [(''login'', JStr ''zoe'')], JDict [(''login'', JStr ''adam'')]])
         else json_reply (JDict [(''users'', JList [JStr ''mia'', JStr ''bob''])]))
      else if req_users req = [KStr ''bob''] then status_reply 500 else status_reply 204)"

text \<open>A service that answers 202 Accepted to everything.\<close>

definition accepted_service :: transport where
  "accepted_service log req = status_reply 202"

text \<open>The first team page is fine and links to a second one, which answers 502.\<close>

definition broken_team_service :: transport where
  "broken_team_service log req =
     (if req_verb req \<noteq> GET then status_reply 204
      else if log = [] then
        Response \<lparr>status_code = 200,
          json_body = Some (JList [JDict [(''login'', JStr ''a'')]]),
          link = Some ''<https://api.x/p2>; rel=\"next\"''\<rparr>
      else if req_url req = ''https://api.x/p2'' then status_reply 502
      else json_reply (JDict [(''users'', JList [JStr ''b''])]))"

text \<open>The team is fetched, then the cost center answers 200 with a body that is not JSON.\<close>

definition broken_cost_center_service :: transport where
  "broken_cost_center_service log req =
     (if req_verb req \<noteq> GET then status_reply 204
      else if req_url req = team_url demo_config then json_reply (JList [JDict [(''login'', JStr ''a'')]])
      else Response \<lparr>status_code = 200, json_body = None, link = None\<rparr>)"

text \<open>Payloads of the shape tests, and cost-center answers of unexpected shape.\<close>

definition alice_page :: json where
  "alice_page = JDict [(''memberships'', JList [JDict [(''user'', JDict [(''login'', JStr ''alice'')])]])]"

definition resources_list_service :: transport where
  "resources_list_service log req =
     json_reply (JDict [(''id'', JStr ''cc1''),
       (''resources'', JList [JDict [(''type'', JStr ''User''), (''name'', JStr ''octocat'')]])])"

definition resources_null_service :: transport where
  "resources_null_service log req = json_reply (JDict [(''resources'', JNull)])"

definition users_null_service :: transport where
  "users_null_service log req =
     json_reply (JDict [(''resources'', JDict [(''users'', JNull)]), (''users'', JList [JStr ''a''])])"

definition shadowed_users_service :: transport where
  "shadowed_users_service log req =
     json_reply (JDict [(''resources'', JDict []), (''users'', JList [JStr ''a''])])"

text \<open>Every page holds the login a and links to a next page.\<close>

definition endless_service :: transport where
  "endless_service log req =
     Response \<lparr>status_code = 200,
       json_body = Some (JList [JDict [(''login'', JStr ''a'')]]),
       link = Some ''<https://api.x/more>; rel=\"next\"''\<rparr>"

section \<open>Requests issued by the fetchers\<close>

lemma get_request_verb [simp]: "req_verb (get_request cfg u) = GET"
  by (simp add: get_request_def)

lemma fetch_page_log:
  "fetch_page tr cfg u logins log = (res, log') \<Longrightarrow> log' = log @ [get_request cfg u]"
  by (auto simp: fetch_page_def Let_def split: reply.splits if_splits option.splits sum.splits)

lemma fetch_team_pages_stop:
  "next_url = None \<or> next_url = Some [] \<Longrightarrow>
   fetch_team_pages tr cfg next_url page logins log = (Inr logins, log)"
  by (subst fetch_team_pages.simps) auto

lemma fetch_team_pages_abort:
  "u \<noteq> [] \<Longrightarrow> fetch_page tr cfg u logins log = (Inl e, lg) \<Longrightarrow>
   fetch_team_pages tr cfg (Some u) page logins log = (Inl e, lg)"
  by (subst fetch_team_pages.simps) simp

lemma fetch_team_pages_step:
  "u \<noteq> [] \<Longrightarrow> fetch_page tr cfg u logins log = (Inr (logins', next_url'), lg) \<Longrightarrow>
   fetch_team_pages tr cfg (Some u) page logins log =
     (if page + 1 > 200 then (Inr logins', lg)
      else fetch_team_pages tr cfg next_url' (page + 1) logins' lg)"
  by (subst fetch_team_pages.simps) simp

lemma fetch_cost_center_members_log:
  "fetch_cost_center_members tr cfg log = (res, log') \<Longrightarrow>
   log' = log @ [get_request cfg (cost_center_url cfg)]"
  by (auto simp: fetch_cost_center_members_def Let_def
      split: reply.splits if_splits option.splits)

lemma overlap_team:
  "fetch_enterprise_team_members overlap_service demo_config [] =
     (Inr {KStr ''a'', KStr ''b'', KStr ''c''}, [team_get])"
  by code_simp

lemma overlap_cost_center:
  "fetch_cost_center_members overlap_service demo_config [team_get] =
     (Inr {KStr ''b'', KStr ''c'', KStr ''d''}, [team_get, cost_center_get])"
  by code_simp

section \<open>The difference computation\<close>

text \<open>
  C1.  Whatever two sets the fetchers return, the orchestrator goes on with
  \<open>to_remove = cost_center_members - team_members\<close> and
  \<open>to_add = team_members - cost_center_members\<close>; \<open>to_add\<close> shares no member with the
  cost-center set, \<open>to_remove\<close> none with the team set, and the two none with each other.
\<close>

theorem sync_differences:
  assumes "fetch_enterprise_team_members tr cfg log = (Inr team_members, log1)"
    and "fetch_cost_center_members tr cfg log1 = (Inr cost_center_members, log2)"
  shows "sync_cost_center_with_team tr cfg log =
           apply_plan tr cfg (cost_center_members - team_members)
             (team_members - cost_center_members) log2
         \<and> (team_members - cost_center_members) \<inter> cost_center_members = {}
         \<and> (cost_center_members - team_members) \<inter> team_members = {}
         \<and> (team_members - cost_center_members) \<inter> (cost_center_members - team_members) = {}"
  using assms by (auto simp: sync_cost_center_with_team_def Let_def)

text \<open>The team a, b, c and the cost center b, c, d give \<open>to_remove = {d}\<close>, \<open>to_add = {a}\<close>.\<close>

theorem sync_differences_example:
  "fetch_enterprise_team_members overlap_service demo_config [] =
     (Inr {KStr ''a'', KStr ''b'', KStr ''c''}, [team_get])
   \<and> fetch_cost_center_members overlap_service demo_config [team_get] =
     (Inr {KStr ''b'', KStr ''c'', KStr ''d''}, [team_get, cost_center_get])
   \<and> sync_cost_center_with_team overlap_service demo_config [] =
       apply_plan overlap_service demo_config {KStr ''d''} {KStr ''a''}
         [team_get, cost_center_get]"
proof -
  have d1: "{KStr ''b'', KStr ''c'', KStr ''d''} - {KStr ''a'', KStr ''b'', KStr ''c''}
              = {KStr ''d''}" by auto
  have d2: "{KStr ''a'', KStr ''b'', KStr ''c''} - {KStr ''b'', KStr ''c'', KStr ''d''}
              = {KStr ''a''}" by auto
  from sync_differences [OF overlap_team overlap_cost_center] show ?thesis
    unfolding d1 d2 using overlap_team overlap_cost_center by simp
qed

section \<open>The mutation loops\<close>

lemma successes_Nil [simp]: "successes tr mk codes [] log = 0"
  by (simp add: successes_def)

lemma successes_Cons:
  "successes tr mk codes (u # us) log =
     (if attempt_ok tr mk codes (u # us) log 0 then 1 else 0)
       + successes tr mk codes us (log @ [mk u])"
proof -
  have sh: "\<And>i. attempt_ok tr mk codes (u # us) log (Suc i) = attempt_ok tr mk codes us (log @ [mk u]) i"
    by (simp add: attempt_ok_def)
  have "[0..<length (u # us)] = 0 # map Suc [0..<length us]"
    by (simp add: upt_conv_Cons map_Suc_upt del: upt_Suc)
  then show ?thesis
    by (simp add: successes_def filter_map o_def sh del: upt_Suc)
qed

lemma attempt_ok_0:
  "attempt_ok tr mk codes (u # us) log 0 =
     (case tr log (mk u) of Response resp \<Rightarrow> status_code resp \<in> codes | Raises \<Rightarrow> False)"
  by (simp add: attempt_ok_def)

lemma add_user_response:
  "tr log (post_request cfg u) = Response resp \<Longrightarrow>
   add_user_to_cost_center tr cfg u log =
     (Inr (status_code resp \<in> {200, 201, 204}), log @ [post_request cfg u])"
  by (simp add: add_user_to_cost_center_def Let_def)

lemma remove_user_response:
  "tr log (delete_request cfg u) = Response resp \<Longrightarrow>
   remove_user_from_cost_center tr cfg u log =
     (Inr (status_code resp \<in> {200, 204}), log @ [delete_request cfg u])"
  by (simp add: remove_user_from_cost_center_def Let_def)

lemma post_request_verb [simp]: "req_verb (post_request cfg u) = POST"
  by (simp add: post_request_def)

lemma delete_request_verb [simp]: "req_verb (delete_request cfg u) = DELETE"
  by (simp add: delete_request_def)

lemma add_loop_responses:
  assumes "\<forall>l r. req_verb r \<noteq> GET \<longrightarrow> tr l r \<noteq> Raises"
  shows "add_loop tr cfg us n log =
           (Inr (n + successes tr (post_request cfg) {200, 201, 204} us log),
            log @ map (post_request cfg) us)"
proof (induction us arbitrary: n log)
  case Nil
  show ?case by simp
next
  case (Cons u us)
  from assms have "tr log (post_request cfg u) \<noteq> Raises" by simp
  then obtain resp where r: "tr log (post_request cfg u) = Response resp"
    by (cases "tr log (post_request cfg u)") auto
  show ?case
    by (simp add: add_user_response [where tr = tr, OF r] Cons.IH successes_Cons attempt_ok_0 r)
qed

lemma remove_loop_responses:
  assumes "\<forall>l r. req_verb r \<noteq> GET \<longrightarrow> tr l r \<noteq> Raises"
  shows "remove_loop tr cfg us n log =
           (Inr (n + successes tr (delete_request cfg) {200, 204} us log),
            log @ map (delete_request cfg) us)"
proof (induction us arbitrary: n log)
  case Nil
  show ?case by simp
next
  case (Cons u us)
  from assms have "tr log (delete_request cfg u) \<noteq> Raises" by simp
  then obtain resp where r: "tr log (delete_request cfg u) = Response resp"
    by (cases "tr log (delete_request cfg u)") auto
  show ?case
    by (simp add: remove_user_response [where tr = tr, OF r] Cons.IH successes_Cons attempt_ok_0 r)
qed

section \<open>Finite sets of logins, sorted\<close>

lemma fetch_team_pages_cases:
  assumes "fetch_team_pages tr cfg next_url page logins log = (res, log')"
  obtains
    (stop) "next_url = None \<or> next_url = Some []" "res = Inr logins" "log' = log"
  | (abort) u e where "next_url = Some u" "u \<noteq> []"
      "fetch_page tr cfg u logins log = (Inl e, log')" "res = Inl e"
  | (cap) u logins' next_url' where "next_url = Some u" "u \<noteq> []"
      "fetch_page tr cfg u logins log = (Inr (logins', next_url'), log')"
      "page + 1 > 200" "res = Inr logins'"
  | (continue) u logins' next_url' lg where "next_url = Some u" "u \<noteq> []"
      "fetch_page tr cfg u logins log = (Inr (logins', next_url'), lg)"
      "\<not> page + 1 > 200"
      "fetch_team_pages tr cfg next_url' (page + 1) logins' lg = (res, log')"
proof (cases "next_url = None \<or> next_url = Some []")
  case True
  with fetch_team_pages_stop [OF True, of tr cfg page logins log] assms stop show ?thesis by simp
next
  case False
  then obtain u where u: "next_url = Some u" "u \<noteq> []" by auto
  obtain r lg where p: "fetch_page tr cfg u logins log = (r, lg)"
    by (cases "fetch_page tr cfg u logins log")
  show ?thesis
  proof (cases r)
    case (Inl e)
    with fetch_team_pages_abort [OF u(2)] p assms u abort show ?thesis by simp
  next
    case (Inr a)
    obtain l' n' where a: "a = (l', n')" by (cases a)
    note st = fetch_team_pages_step [OF u(2) p [unfolded Inr a], of page]
    show ?thesis
    proof (cases "page + 1 > 200")
      case True
      with st assms u have "res = Inr l'" "log' = lg" by simp_all
      with cap [OF u] p Inr a True show ?thesis by simp
    next
      case False
      with st assms u
      have "fetch_team_pages tr cfg n' (page + 1) l' lg = (res, log')" by simp
      with continue [OF u] p Inr a False show ?thesis by simp
    qed
  qed
qed

lemma add_login_finite: "add_login v S = Inr S' \<Longrightarrow> finite S \<Longrightarrow> finite S'"
  by (cases v) (auto split: if_splits)

lemma add_memberships_finite:
  "add_memberships ms S = Inr S' \<Longrightarrow> finite S \<Longrightarrow> finite S'"
  by (induction ms S rule: add_memberships.induct)
     (auto split: sum.splits dest: add_login_finite)

lemma fetch_page_finite:
  "fetch_page tr cfg u S log = (Inr (S', n), log') \<Longrightarrow> finite S \<Longrightarrow> finite S'"
  by (auto simp: fetch_page_def Let_def split: reply.splits if_splits option.splits sum.splits
      dest: add_memberships_finite)

lemma fetch_team_pages_finite:
  "fetch_team_pages tr cfg next_url page logins log = (Inr S, log') \<Longrightarrow> finite logins \<Longrightarrow> finite S"
proof (induction tr cfg next_url page logins log rule: fetch_team_pages.induct)
  case (1 tr cfg next_url page logins log)
  from "1.prems"(1) show ?case
  proof (cases rule: fetch_team_pages_cases)
    case stop
    with "1.prems" show ?thesis by simp
  next
    case (abort u e)
    then show ?thesis by simp
  next
    case (cap u logins' next_url')
    with fetch_page_finite "1.prems" show ?thesis by blast
  next
    case (continue u logins' next_url' lg)
    from fetch_page_finite [OF continue(3) "1.prems"(2)] have "finite logins'" .
    from "1.IH" [OF continue(1) continue(2) continue(3) [symmetric] refl refl continue(4) continue(5) this]
    show ?thesis .
  qed
qed

lemma fetch_enterprise_team_members_finite:
  "fetch_enterprise_team_members tr cfg log = (Inr S, log') \<Longrightarrow> finite S"
  unfolding fetch_enterprise_team_members_def by (erule fetch_team_pages_finite) simp

lemma add_users_finite: "add_users us S = Inr S' \<Longrightarrow> finite S \<Longrightarrow> finite S'"
  by (induction us arbitrary: S) (auto split: sum.splits dest: add_login_finite)

lemma users_of_finite: "users_of h = Inr S \<Longrightarrow> finite S"
  by (auto simp: users_of_def split: sum.splits dest: add_users_finite)

lemma cost_center_logins_finite: "cost_center_logins d = Inr S \<Longrightarrow> finite S"
  by (auto simp: cost_center_logins_def split: sum.splits bool.splits dest: users_of_finite)

lemma fetch_cost_center_members_finite:
  "fetch_cost_center_members tr cfg log = (Inr S, log') \<Longrightarrow> finite S"
  by (auto simp: fetch_cost_center_members_def Let_def
      split: reply.splits if_splits option.splits dest: cost_center_logins_finite)

lemma KStr_the_str: "is_str k \<Longrightarrow> KStr (the_str k) = k"
  by (cases k) simp_all

lemma py_sorted_strings:
  assumes "finite S" "\<forall>k\<in>S. is_str k"
  shows "\<exists>us. py_sorted S = Inr us \<and> set us = S \<and> distinct us \<and> sorted (map the_str us)
           \<and> length us = card S"
proof -
  let ?xs = "sorted_list_of_set (the_str ` S)"
  have inj: "inj_on the_str S"
    using assms(2) by (intro inj_onI) (metis KStr_the_str)
  have "set (map KStr ?xs) = S"
    using assms by (auto simp: KStr_the_str image_image intro: rev_image_eqI)
  moreover have "distinct (map KStr ?xs)"
    by (simp add: distinct_map inj_on_def)
  moreover have "map the_str (map KStr ?xs) = ?xs" by (simp add: o_def)
  moreover have "length (map KStr ?xs) = card S"
    using inj by (simp add: card_image)
  moreover have "py_sorted S = Inr (map KStr ?xs)" using assms(2) by (simp add: py_sorted_def)
  ultimately show ?thesis by (metis sorted_sorted_list_of_set)
qed

section \<open>The two phases on sets of strings\<close>

lemma remove_phase_strings:
  assumes "finite S" "\<forall>k\<in>S. is_str k" "\<forall>l r. req_verb r \<noteq> GET \<longrightarrow> tr l r \<noteq> Raises"
  shows "\<exists>us. py_sorted S = Inr us \<and> set us = S \<and> distinct us \<and> sorted (map the_str us)
           \<and> remove_phase tr cfg S log =
               (Inr (if S = {} then None
                     else Some (successes tr (delete_request cfg) {200, 204} us log, card S)),
                log @ map (delete_request cfg) us)"
proof -
  from py_sorted_strings [OF assms(1,2)] obtain us where
    us: "py_sorted S = Inr us" "set us = S" "distinct us" "sorted (map the_str us)" by blast
  have "remove_phase tr cfg S log =
               (Inr (if S = {} then None
                     else Some (successes tr (delete_request cfg) {200, 204} us log, card S)),
                log @ map (delete_request cfg) us)"
    using us(1,2) by (auto simp: remove_phase_def remove_loop_responses [OF assms(3)])
  with us show ?thesis by blast
qed

lemma add_phase_strings:
  assumes "finite S" "\<forall>k\<in>S. is_str k" "\<forall>l r. req_verb r \<noteq> GET \<longrightarrow> tr l r \<noteq> Raises"
  shows "\<exists>us. py_sorted S = Inr us \<and> set us = S \<and> distinct us \<and> sorted (map the_str us)
           \<and> add_phase tr cfg S log =
               (Inr (if S = {} then None
                     else Some (successes tr (post_request cfg) {200, 201, 204} us log, card S)),
                log @ map (post_request cfg) us)"
proof -
  from py_sorted_strings [OF assms(1,2)] obtain us where
    us: "py_sorted S = Inr us" "set us = S" "distinct us" "sorted (map the_str us)" by blast
  have "add_phase tr cfg S log =
               (Inr (if S = {} then None
                     else Some (successes tr (post_request cfg) {200, 201, 204} us log, card S)),
                log @ map (post_request cfg) us)"
    using us(1,2) by (auto simp: add_phase_def add_loop_responses [OF assms(3)])
  with us show ?thesis by blast
qed

lemma apply_plan_strings:
  assumes "finite R" "finite A" "\<forall>k\<in>R. is_str k" "\<forall>k\<in>A. is_str k"
    and "\<forall>l r. req_verb r \<noteq> GET \<longrightarrow> tr l r \<noteq> Raises"
  shows "\<exists>s rs as. apply_plan tr cfg R A log =
            (Inr s, log @ map (delete_request cfg) rs @ map (post_request cfg) as)
          \<and> set rs = R \<and> distinct rs \<and> sorted (map the_str rs)
          \<and> set as = A \<and> distinct as \<and> sorted (map the_str as)"
proof -
  from remove_phase_strings [OF assms(1,3,5), of cfg log] obtain rs rem where
    rs: "py_sorted R = Inr rs" "set rs = R" "distinct rs" "sorted (map the_str rs)"
      "remove_phase tr cfg R log = (Inr rem, log @ map (delete_request cfg) rs)" by blast
  from add_phase_strings [OF assms(2,4,5), of cfg "log @ map (delete_request cfg) rs"]
  obtain as ad where
    as: "py_sorted A = Inr as" "set as = A" "distinct as" "sorted (map the_str as)"
      "add_phase tr cfg A (log @ map (delete_request cfg) rs)
         = (Inr ad, (log @ map (delete_request cfg) rs) @ map (post_request cfg) as)" by blast
  have "apply_plan tr cfg R A log =
          (Inr \<lparr>removed = rem, added = ad, in_sync = (R = {} \<and> A = {})\<rparr>,
           log @ map (delete_request cfg) rs @ map (post_request cfg) as)"
  proof -
    have g1: "(if R \<noteq> {} then py_sorted R else Inr []) = Inr (if R \<noteq> {} then rs else [])"
      using rs(1) by simp
    have g2: "(if A \<noteq> {} then py_sorted A else Inr []) = Inr (if A \<noteq> {} then as else [])"
      using as(1) by simp
    show ?thesis unfolding apply_plan_def g1 g2 by (simp add: rs(5) as(5))
  qed
  with rs as show ?thesis by blast
qed

section \<open>Order of the mutations\<close>

lemma swap_team:
  "fetch_enterprise_team_members swap_service demo_config [] =
     (Inr {KStr ''zoe'', KStr ''adam''}, [team_get])"
  by code_simp

lemma swap_cost_center:
  "fetch_cost_center_members swap_service demo_config [team_get] =
     (Inr {KStr ''mia'', KStr ''bob''}, [team_get, cost_center_get])"
  by code_simp

lemma swap_responds: "\<forall>l r. req_verb r \<noteq> GET \<longrightarrow> swap_service l r \<noteq> Raises"
  by (simp add: swap_service_def status_reply_def)

lemma swap_run:
  "sync_cost_center_with_team swap_service demo_config [] =
     (Inr \<lparr>removed = Some (1, 2), added = Some (2, 2), in_sync = False\<rparr>,
      [team_get, cost_center_get,
       delete_request demo_config (KStr ''bob''), delete_request demo_config (KStr ''mia''),
       post_request demo_config (KStr ''adam''), post_request demo_config (KStr ''zoe'')])"
  by code_simp

text \<open>
  C2.  When both fetches return sets of string identifiers and every mutation request is
  answered with an HTTP response, whatever its status, the run issues after the fetches
  exactly one DELETE for each member of \<open>to_remove\<close>, in lexicographically sorted order,
  and only then exactly one POST for each member of \<open>to_add\<close>, in sorted order: no
  failed mutation keeps a later identifier of either phase from being attempted.
\<close>

theorem removals_then_additions_sorted:
  assumes "fetch_enterprise_team_members tr cfg log = (Inr team_members, log1)"
    and "fetch_cost_center_members tr cfg log1 = (Inr cost_center_members, log2)"
    and "\<forall>k\<in>team_members \<union> cost_center_members. is_str k"
    and "\<forall>l r. req_verb r \<noteq> GET \<longrightarrow> tr l r \<noteq> Raises"
  shows "\<exists>s removals additions.
           sync_cost_center_with_team tr cfg log =
             (Inr s, log2 @ map (delete_request cfg) removals @ map (post_request cfg) additions)
           \<and> set removals = cost_center_members - team_members
           \<and> distinct removals \<and> sorted (map the_str removals)
           \<and> set additions = team_members - cost_center_members
           \<and> distinct additions \<and> sorted (map the_str additions)"
proof -
  have f: "finite team_members" "finite cost_center_members"
    using assms(1,2) fetch_enterprise_team_members_finite fetch_cost_center_members_finite
    by blast+
  have "sync_cost_center_with_team tr cfg log =
          apply_plan tr cfg (cost_center_members - team_members)
             (team_members - cost_center_members) log2"
    using assms(1,2) by (simp add: sync_cost_center_with_team_def)
  moreover from apply_plan_strings [of "cost_center_members - team_members"
      "team_members - cost_center_members" tr cfg log2] f assms(3,4)
  have "\<exists>s rs as. apply_plan tr cfg (cost_center_members - team_members)
             (team_members - cost_center_members) log2 =
            (Inr s, log2 @ map (delete_request cfg) rs @ map (post_request cfg) as)
          \<and> set rs = cost_center_members - team_members \<and> distinct rs \<and> sorted (map the_str rs)
          \<and> set as = team_members - cost_center_members \<and> distinct as \<and> sorted (map the_str as)"
    by auto
  ultimately show ?thesis by simp
qed

text \<open>
  Team zoe, adam and cost center mia, bob: bob is removed first and fails, mia is still
  removed, then adam and zoe are added.
\<close>

theorem removals_then_additions_sorted_example:
  "(\<exists>s removals additions.
      sync_cost_center_with_team swap_service demo_config [] =
        (Inr s, [team_get, cost_center_get] @ map (delete_request demo_config) removals
                  @ map (post_request demo_config) additions)
      \<and> set removals = {KStr ''mia'', KStr ''bob''} - {KStr ''zoe'', KStr ''adam''}
      \<and> distinct removals \<and> sorted (map the_str removals)
      \<and> set additions = {KStr ''zoe'', KStr ''adam''} - {KStr ''mia'', KStr ''bob''}
      \<and> distinct additions \<and> sorted (map the_str additions))
   \<and> sync_cost_center_with_team swap_service demo_config [] =
     (Inr \<lparr>removed = Some (1, 2), added = Some (2, 2), in_sync = False\<rparr>,
      [team_get, cost_center_get,
       delete_request demo_config (KStr ''bob''), delete_request demo_config (KStr ''mia''),
       post_request demo_config (KStr ''adam''), post_request demo_config (KStr ''zoe'')])"
proof -
  have s: "\<forall>k\<in>{KStr ''zoe'', KStr ''adam''} \<union> {KStr ''mia'', KStr ''bob''}. is_str k" by simp
  from removals_then_additions_sorted [OF swap_team swap_cost_center s swap_responds] swap_run
  show ?thesis by blast
qed

section \<open>Outcome of a mutation\<close>

lemma failing_responds: "\<forall>l r. req_verb r \<noteq> GET \<longrightarrow> failing_service l r \<noteq> Raises"
  by (simp add: failing_service_def status_reply_def)

lemma failing_successes:
  "successes failing_service (post_request demo_config) {200, 201, 204}
     [KStr ''x'', KStr ''y''] [team_get, cost_center_get] = 1"
  by code_simp

lemma failing_run:
  "sync_cost_center_with_team failing_service demo_config [] =
     (Inr \<lparr>removed = None, added = Some (1, 2), in_sync = False\<rparr>,
      [team_get, cost_center_get,
       post_request demo_config (KStr ''x''), post_request demo_config (KStr ''y'')])"
  by code_simp

text \<open>
  C3, as the script has it.  For a mutation answered with an HTTP response, adding
  succeeds exactly on status 200, 201 or 204 and removing exactly on 200 or 204; any other
  status (202 Accepted included) makes the operation return failure without raising, and
  the loop of either phase goes on: it issues one request per identifier, in order, and
  counts the attempts that succeeded.
\<close>

theorem mutation_outcomes:
  assumes "\<forall>l r. req_verb r \<noteq> GET \<longrightarrow> tr l r \<noteq> Raises"
  shows "(\<exists>resp. tr log (post_request cfg u) = Response resp
            \<and> add_user_to_cost_center tr cfg u log =
                (Inr (status_code resp \<in> {200, 201, 204}), log @ [post_request cfg u]))
       \<and> (\<exists>resp. tr log (delete_request cfg u) = Response resp
            \<and> remove_user_from_cost_center tr cfg u log =
                (Inr (status_code resp \<in> {200, 204}), log @ [delete_request cfg u]))
       \<and> add_loop tr cfg us n log =
           (Inr (n + successes tr (post_request cfg) {200, 201, 204} us log),
            log @ map (post_request cfg) us)
       \<and> remove_loop tr cfg us n log =
           (Inr (n + successes tr (delete_request cfg) {200, 204} us log),
            log @ map (delete_request cfg) us)"
proof -
  from assms have "tr log (post_request cfg u) \<noteq> Raises" by simp
  then obtain r1 where r1: "tr log (post_request cfg u) = Response r1"
    by (cases "tr log (post_request cfg u)") auto
  from assms have "tr log (delete_request cfg u) \<noteq> Raises" by simp
  then obtain r2 where r2: "tr log (delete_request cfg u) = Response r2"
    by (cases "tr log (delete_request cfg u)") auto
  from add_user_response [where tr = tr, OF r1] remove_user_response [where tr = tr, OF r2]
    add_loop_responses [OF assms] remove_loop_responses [OF assms] r1 r2
  show ?thesis by simp
qed

text \<open>
  Adding x answers 500 and adding y answers 201: both are attempted, one success of two
  attempts is reported.
\<close>

theorem mutation_outcomes_example:
  "add_loop failing_service demo_config [KStr ''x'', KStr ''y''] 0 [team_get, cost_center_get] =
     (Inr 1, [team_get, cost_center_get,
              post_request demo_config (KStr ''x''), post_request demo_config (KStr ''y'')])
   \<and> sync_cost_center_with_team failing_service demo_config [] =
     (Inr \<lparr>removed = None, added = Some (1, 2), in_sync = False\<rparr>,
      [team_get, cost_center_get,
       post_request demo_config (KStr ''x''), post_request demo_config (KStr ''y'')])"
  using mutation_outcomes [OF failing_responds, of "[team_get, cost_center_get]" demo_config "KStr ''x''"
      "[KStr ''x'', KStr ''y'']" 0] failing_successes failing_run
  by simp

text \<open>
  Status 202 Accepted, a conventional success code for both verbs, is reported as a
  failure by both operations.
\<close>

theorem accepted_status_is_failure:
  "add_user_to_cost_center accepted_service demo_config (KStr ''x'') [] =
     (Inr False, [post_request demo_config (KStr ''x'')])
   \<and> remove_user_from_cost_center accepted_service demo_config (KStr ''x'') [] =
     (Inr False, [delete_request demo_config (KStr ''x'')])"
  by (simp add: add_user_to_cost_center_def remove_user_from_cost_center_def
      accepted_service_def status_reply_def Let_def)

section \<open>Fatal reads\<close>

lemma bad_read_seen_append:
  "bad_read_seen tr log (xs @ ys) = (bad_read_seen tr log xs \<or> bad_read_seen tr (log @ xs) ys)"
  by (induction xs arbitrary: log) auto

lemma bad_read_seen_no_get:
  "\<forall>r\<in>set new. req_verb r \<noteq> GET \<Longrightarrow> \<not> bad_read_seen tr log new"
  by (induction new arbitrary: log) auto

lemma add_login_error: "add_login v S = Inl e \<Longrightarrow> e = TypeError"
  by (cases v) (auto split: if_splits)

lemma add_memberships_error: "add_memberships ms S = Inl e \<Longrightarrow> e = TypeError"
  by (induction ms S rule: add_memberships.induct)
     (auto split: sum.splits dest: add_login_error)

lemma add_users_error: "add_users us S = Inl e \<Longrightarrow> e = TypeError"
  by (induction us arbitrary: S) (auto split: sum.splits dest: add_login_error)

lemma py_iter_error: "py_iter v = Inl e \<Longrightarrow> e = TypeError"
  by (cases v) auto

lemma py_in_error: "py_in k v = Inl e \<Longrightarrow> e = TypeError"
  by (cases v) auto

lemma py_get_error: "py_get v k d = Inl e \<Longrightarrow> e = AttributeError"
  by (cases v) auto

lemma users_of_error: "users_of h = Inl e \<Longrightarrow> e = TypeError \<or> e = AttributeError"
  by (auto simp: users_of_def split: sum.splits
      dest: add_users_error py_iter_error py_get_error)

lemma cost_center_logins_error:
  "cost_center_logins d = Inl e \<Longrightarrow> e = TypeError \<or> e = AttributeError"
  by (auto simp: cost_center_logins_def split: sum.splits bool.splits
      dest: users_of_error py_in_error py_get_error)

lemma fetch_page_bad_read:
  "fetch_page tr cfg u S log = (r, lg) \<Longrightarrow>
   bad_read (tr log (get_request cfg u)) = (\<exists>reason. r = Inl (SystemExit reason))"
  by (auto simp: fetch_page_def bad_read_def Let_def
      split: reply.splits if_splits option.splits sum.splits dest: add_memberships_error)

lemma fetch_team_pages_reads:
  "fetch_team_pages tr cfg next_url page logins log = (res, log') \<Longrightarrow>
   \<exists>new. log' = log @ new \<and> (\<forall>r\<in>set new. req_verb r = GET)
     \<and> (bad_read_seen tr log new \<longrightarrow> (\<exists>reason. res = Inl (SystemExit reason)))"
proof (induction tr cfg next_url page logins log rule: fetch_team_pages.induct)
  case (1 tr cfg next_url page logins log)
  from "1.prems" show ?case
  proof (cases rule: fetch_team_pages_cases)
    case stop
    then show ?thesis by simp
  next
    case (abort u e)
    from fetch_page_log [OF abort(3)] fetch_page_bad_read [OF abort(3)] abort(4)
    show ?thesis by (intro exI [of _ "[get_request cfg u]"]) simp
  next
    case (cap u logins' next_url')
    from fetch_page_log [OF cap(3)] fetch_page_bad_read [OF cap(3)]
    show ?thesis by (intro exI [of _ "[get_request cfg u]"]) simp
  next
    case (continue u logins' next_url' lg)
    from "1.IH" [OF continue(1) continue(2) continue(3) [symmetric] refl refl continue(4) continue(5)]
    obtain new where n: "log' = lg @ new" "\<forall>r\<in>set new. req_verb r = GET"
      "bad_read_seen tr lg new \<longrightarrow> (\<exists>reason. res = Inl (SystemExit reason))" by blast
    from fetch_page_log [OF continue(3)] fetch_page_bad_read [OF continue(3)] n
    show ?thesis by (intro exI [of _ "get_request cfg u # new"]) simp
  qed
qed

lemma fetch_cost_center_members_bad_read:
  "fetch_cost_center_members tr cfg log = (r, lg) \<Longrightarrow>
   bad_read (tr log (get_request cfg (cost_center_url cfg))) = (\<exists>reason. r = Inl (SystemExit reason))"
  by (auto simp: fetch_cost_center_members_def bad_read_def Let_def
      split: reply.splits if_splits option.splits dest: cost_center_logins_error)

lemma remove_loop_log:
  "remove_loop tr cfg us n log = (res, log') \<Longrightarrow>
   \<exists>new. log' = log @ new \<and> (\<forall>r\<in>set new. req_verb r = DELETE)"
proof (induction us arbitrary: n log)
  case Nil
  then show ?case by simp
next
  case (Cons u us)
  obtain r lg where p: "remove_user_from_cost_center tr cfg u log = (r, lg)"
    by (cases "remove_user_from_cost_center tr cfg u log")
  then have lg: "lg = log @ [delete_request cfg u]"
    by (auto simp: remove_user_from_cost_center_def Let_def split: reply.splits)
  show ?case
  proof (cases r)
    case (Inl e)
    with Cons.prems p lg show ?thesis by (intro exI [of _ "[delete_request cfg u]"]) simp
  next
    case (Inr ok)
    with Cons.prems p
    have "remove_loop tr cfg us (if ok then n + 1 else n) lg = (res, log')" by simp
    from Cons.IH [OF this] obtain new where "log' = lg @ new" "\<forall>r\<in>set new. req_verb r = DELETE"
      by blast
    with lg show ?thesis by (intro exI [of _ "delete_request cfg u # new"]) simp
  qed
qed

lemma add_loop_log:
  "add_loop tr cfg us n log = (res, log') \<Longrightarrow>
   \<exists>new. log' = log @ new \<and> (\<forall>r\<in>set new. req_verb r = POST)"
proof (induction us arbitrary: n log)
  case Nil
  then show ?case by simp
next
  case (Cons u us)
  obtain r lg where p: "add_user_to_cost_center tr cfg u log = (r, lg)"
    by (cases "add_user_to_cost_center tr cfg u log")
  then have lg: "lg = log @ [post_request cfg u]"
    by (auto simp: add_user_to_cost_center_def Let_def split: reply.splits)
  show ?case
  proof (cases r)
    case (Inl e)
    with Cons.prems p lg show ?thesis by (intro exI [of _ "[post_request cfg u]"]) simp
  next
    case (Inr ok)
    with Cons.prems p
    have "add_loop tr cfg us (if ok then n + 1 else n) lg = (res, log')" by simp
    from Cons.IH [OF this] obtain new where "log' = lg @ new" "\<forall>r\<in>set new. req_verb r = POST"
      by blast
    with lg show ?thesis by (intro exI [of _ "post_request cfg u # new"]) simp
  qed
qed

lemma remove_phase_log:
  assumes "remove_phase tr cfg R log = (res, log')"
  shows "\<exists>new. log' = log @ new \<and> (\<forall>r\<in>set new. req_verb r \<noteq> GET)"
proof (cases "\<exists>us. R \<noteq> {} \<and> py_sorted R = Inr us")
  case True
  then obtain us where us: "R \<noteq> {}" "py_sorted R = Inr us" by blast
  obtain r lg where l: "remove_loop tr cfg us 0 log = (r, lg)"
    by (cases "remove_loop tr cfg us 0 log")
  from remove_loop_log [OF l] obtain new where
    n: "lg = log @ new" "\<forall>r\<in>set new. req_verb r = DELETE" by blast
  from assms us l have "log' = lg" by (auto simp: remove_phase_def split: sum.splits)
  with n show ?thesis by (intro exI [of _ new]) simp
next
  case False
  with assms have "log' = log" by (auto simp: remove_phase_def split: sum.splits if_splits)
  then show ?thesis by simp
qed

lemma add_phase_log:
  assumes "add_phase tr cfg A log = (res, log')"
  shows "\<exists>new. log' = log @ new \<and> (\<forall>r\<in>set new. req_verb r \<noteq> GET)"
proof (cases "\<exists>us. A \<noteq> {} \<and> py_sorted A = Inr us")
  case True
  then obtain us where us: "A \<noteq> {}" "py_sorted A = Inr us" by blast
  obtain r lg where l: "add_loop tr cfg us 0 log = (r, lg)"
    by (cases "add_loop tr cfg us 0 log")
  from add_loop_log [OF l] obtain new where
    n: "lg = log @ new" "\<forall>r\<in>set new. req_verb r = POST" by blast
  from assms us l have "log' = lg" by (auto simp: add_phase_def split: sum.splits)
  with n show ?thesis by (intro exI [of _ new]) simp
next
  case False
  with assms have "log' = log" by (auto simp: add_phase_def split: sum.splits if_splits)
  then show ?thesis by simp
qed

lemma apply_plan_log:
  assumes "apply_plan tr cfg R A log = (res, log')"
  shows "\<exists>new. log' = log @ new \<and> (\<forall>r\<in>set new. req_verb r \<noteq> GET)"
proof -
  obtain r1 lg1 where p1: "remove_phase tr cfg R log = (r1, lg1)"
    by (cases "remove_phase tr cfg R log")
  from remove_phase_log [OF p1] obtain n1 where
    n1: "lg1 = log @ n1" "\<forall>r\<in>set n1. req_verb r \<noteq> GET" by blast
  obtain r2 lg2 where p2: "add_phase tr cfg A lg1 = (r2, lg2)"
    by (cases "add_phase tr cfg A lg1")
  from add_phase_log [OF p2] obtain n2 where
    n2: "lg2 = lg1 @ n2" "\<forall>r\<in>set n2. req_verb r \<noteq> GET" by blast
  from assms p1 p2 have "log' = log \<or> log' = lg1 \<or> log' = lg2"
    by (auto simp: apply_plan_def split: sum.splits if_splits)
  then consider "log' = log" | "log' = lg1" | "log' = lg2" by blast
  then show ?thesis
  proof cases
    case 1
    then show ?thesis by simp
  next
    case 2
    with n1 show ?thesis by (intro exI [of _ n1]) simp
  next
    case 3
    with n1 n2 show ?thesis by (intro exI [of _ "n1 @ n2"]) auto
  qed
qed

lemma broken_team_run: "sync_cost_center_with_team broken_team_service demo_config [] =
  (Inl (SystemExit (TeamFetchFailed 502)), [team_get, get_request demo_config ''https://api.x/p2''])"
  by code_simp

lemma broken_team_bad: "bad_read_seen broken_team_service [] [team_get, get_request demo_config ''https://api.x/p2'']"
  by code_simp

lemma broken_cost_center_run:
  "sync_cost_center_with_team broken_cost_center_service demo_config [] =
     (Inl (SystemExit CostCenterNonJSON), [team_get, cost_center_get])"
  by code_simp

text \<open>
  C4.  In every run in which a GET of either membership fetch is answered with a status
  other than 200 or with a body that is not JSON, the run ends with \<open>SystemExit\<close> and every
  request it has issued is a GET: no add or remove request is sent.
\<close>

theorem bad_read_aborts_before_mutation:
  assumes "sync_cost_center_with_team tr cfg log = (res, log')"
    and "bad_read_seen tr log (drop (length log) log')"
  shows "(\<exists>reason. res = Inl (SystemExit reason))
         \<and> (\<forall>r\<in>set (drop (length log) log'). req_verb r = GET)"
proof -
  obtain r1 lg1 where p1: "fetch_enterprise_team_members tr cfg log = (r1, lg1)"
    by (cases "fetch_enterprise_team_members tr cfg log")
  from fetch_team_pages_reads [OF p1 [unfolded fetch_enterprise_team_members_def]]
  obtain n1 where n1: "lg1 = log @ n1" "\<forall>r\<in>set n1. req_verb r = GET"
    "bad_read_seen tr log n1 \<longrightarrow> (\<exists>reason. r1 = Inl (SystemExit reason))" by blast
  show ?thesis
  proof (cases r1)
    case (Inl e)
    with assms(1) p1 have "res = Inl e" "log' = lg1"
      by (simp_all add: sync_cost_center_with_team_def)
    with n1 assms(2) Inl show ?thesis by simp
  next
    case team: (Inr team_members)
    with n1(3) have nb1: "\<not> bad_read_seen tr log n1" by auto
    obtain r2 lg2 where p2: "fetch_cost_center_members tr cfg lg1 = (r2, lg2)"
      by (cases "fetch_cost_center_members tr cfg lg1")
    note lg2 = fetch_cost_center_members_log [OF p2]
    note b2 = fetch_cost_center_members_bad_read [OF p2]
    show ?thesis
    proof (cases r2)
      case (Inl e)
      with assms(1) p1 p2 team have r: "res = Inl e" "log' = lg2"
        by (simp_all add: sync_cost_center_with_team_def)
      with assms(2) lg2 n1(1) nb1 have "bad_read (tr lg1 (get_request cfg (cost_center_url cfg)))"
        by (simp add: bad_read_seen_append)
      with b2 Inl r lg2 n1 show ?thesis by simp
    next
      case cc: (Inr cost_center_members)
      with b2 have nb2: "\<not> bad_read (tr lg1 (get_request cfg (cost_center_url cfg)))" by simp
      from assms(1) p1 p2 team cc
      have "apply_plan tr cfg (cost_center_members - team_members)
              (team_members - cost_center_members) lg2 = (res, log')"
        by (simp add: sync_cost_center_with_team_def)
      from apply_plan_log [OF this] obtain n3 where
        n3: "log' = lg2 @ n3" "\<forall>r\<in>set n3. req_verb r \<noteq> GET" by blast
      from n3 lg2 n1(1) have "drop (length log) log' = n1 @ [get_request cfg (cost_center_url cfg)] @ n3"
        by simp
      with assms(2) nb1 nb2 n1(1) lg2 bad_read_seen_no_get [OF n3(2), of tr lg2]
      have False by (simp add: bad_read_seen_append)
      then show ?thesis ..
    qed
  qed
qed

text \<open>
  A 502 on the second team page ends the run after two GETs; a cost-center body that is
  not JSON ends it after the team GET and the cost-center GET.
\<close>

theorem bad_read_aborts_before_mutation_example:
  "sync_cost_center_with_team broken_team_service demo_config [] =
     (Inl (SystemExit (TeamFetchFailed 502)),
      [team_get, get_request demo_config ''https://api.x/p2''])
   \<and> bad_read_seen broken_team_service []
        [team_get, get_request demo_config ''https://api.x/p2'']
   \<and> req_verb team_get = GET \<and> req_verb (get_request demo_config ''https://api.x/p2'') = GET
   \<and> sync_cost_center_with_team broken_cost_center_service demo_config [] =
     (Inl (SystemExit CostCenterNonJSON), [team_get, cost_center_get])"
  using bad_read_aborts_before_mutation [OF broken_team_run] broken_team_bad broken_team_run
    broken_cost_center_run
  by simp

section \<open>Idempotence\<close>

lemma apply_plan_empty:
  "apply_plan tr cfg {} {} log = (Inr \<lparr>removed = None, added = None, in_sync = True\<rparr>, log)"
  by (simp add: apply_plan_def remove_phase_def add_phase_def)

lemma synced_team:
  "fetch_enterprise_team_members synced_service demo_config [] =
     (Inr {KStr ''alice'', KStr ''bob''}, [team_get])"
  by code_simp

lemma synced_cost_center:
  "fetch_cost_center_members synced_service demo_config [team_get] =
     (Inr {KStr ''alice'', KStr ''bob''}, [team_get, cost_center_get])"
  by code_simp

text \<open>
  C5.  When the cost-center set fetched by a run equals the team set it fetched, as on a
  second run after a successful first one, both differences are empty, the run reports
  "already in sync", and the only requests it issues are the GETs of the two fetches.
\<close>

theorem second_run_is_empty:
  assumes "fetch_enterprise_team_members tr cfg log = (Inr team_members, log1)"
    and "fetch_cost_center_members tr cfg log1 = (Inr team_members, log2)"
  shows "sync_cost_center_with_team tr cfg log = apply_plan tr cfg {} {} log2
         \<and> apply_plan tr cfg {} {} log2 =
             (Inr \<lparr>removed = None, added = None, in_sync = True\<rparr>, log2)
         \<and> (\<exists>new. log2 = log @ new \<and> (\<forall>r\<in>set new. req_verb r = GET))"
proof -
  from assms(1) obtain n1 where n1: "log1 = log @ n1" "\<forall>r\<in>set n1. req_verb r = GET"
    unfolding fetch_enterprise_team_members_def by (blast dest: fetch_team_pages_reads)
  from fetch_cost_center_members_log [OF assms(2)] n1
  have "log2 = log @ (n1 @ [get_request cfg (cost_center_url cfg)])
          \<and> (\<forall>r\<in>set (n1 @ [get_request cfg (cost_center_url cfg)]). req_verb r = GET)"
    by simp
  then have "\<exists>new. log2 = log @ new \<and> (\<forall>r\<in>set new. req_verb r = GET)" by blast
  moreover have "sync_cost_center_with_team tr cfg log = apply_plan tr cfg {} {} log2"
    using assms by (simp add: sync_cost_center_with_team_def)
  ultimately show ?thesis by (simp add: apply_plan_empty)
qed

text \<open>Team and cost center both hold alice and bob: two GETs and nothing else.\<close>

theorem second_run_is_empty_example:
  "sync_cost_center_with_team synced_service demo_config [] =
     (Inr \<lparr>removed = None, added = None, in_sync = True\<rparr>, [team_get, cost_center_get])"
  using second_run_is_empty [OF synced_team synced_cost_center] by simp

section \<open>The shapes the extractor accepts\<close>

lemma dict_get_Nil [simp]: "dict_get [] k = JNull"
  by (simp add: dict_get_def)

lemma looks_like_records_iff:
  "looks_like_records v = (\<exists>xs. v = JList xs \<and> (xs = [] \<or> (\<exists>m rest. xs = JDict m # rest)))"
proof (cases v)
  case (JList xs)
  then show ?thesis
  proof (cases xs)
    case Nil
    with JList show ?thesis by simp
  next
    case (Cons x rest)
    with JList show ?thesis by (cases x) auto
  qed
qed auto

lemma find_first:
  "i < length xs \<Longrightarrow> P (xs ! i) \<Longrightarrow> \<forall>j<i. \<not> P (xs ! j) \<Longrightarrow> find P xs = Some (xs ! i)"
  by (simp add: find_Some_iff) blast

lemma find_records_first:
  assumes "i < length kvs" "snd (kvs ! i) = JList v"
    "v = [] \<or> (\<exists>m rest. v = JDict m # rest)"
    "\<forall>j<i. \<not> (\<exists>w. snd (kvs ! j) = JList w \<and> (w = [] \<or> (\<exists>m rest. w = JDict m # rest)))"
  shows "find looks_like_records (map snd kvs) = Some (JList v)"
proof -
  from assms(1-3) have "looks_like_records (map snd kvs ! i)"
    by (auto simp: looks_like_records_iff)
  moreover from assms(1,4) have "\<forall>j<i. \<not> looks_like_records (map snd kvs ! j)"
    by (auto simp: looks_like_records_iff)
  ultimately have "find looks_like_records (map snd kvs) = Some (map snd kvs ! i)"
    using assms(1) by (intro find_first) auto
  with assms(1,2) show ?thesis by simp
qed

lemma find_records_none:
  assumes "\<forall>j<length kvs. \<not> (\<exists>w. snd (kvs ! j) = JList w \<and> (w = [] \<or> (\<exists>m rest. w = JDict m # rest)))"
  shows "find looks_like_records (map snd kvs) = None"
proof -
  have "\<not> looks_like_records (snd kv)" if "kv \<in> set kvs" for kv
  proof -
    from that obtain j where "j < length kvs" "kvs ! j = kv" by (auto simp: in_set_conv_nth)
    with assms have "\<not> (\<exists>w. snd kv = JList w \<and> (w = [] \<or> (\<exists>m rest. w = JDict m # rest)))"
      by blast
    then show ?thesis by (simp add: looks_like_records_iff)
  qed
  then show ?thesis by (auto simp: find_None_iff)
qed

lemma first_list_field_hit:
  "map_of kvs k = Some (JList ys) \<Longrightarrow> first_list_field (k # ks) kvs = Some ys"
  by simp

lemma first_list_field_skip:
  "\<forall>zs. map_of kvs k \<noteq> Some (JList zs) \<Longrightarrow>
   first_list_field (k # ks) kvs = first_list_field ks kvs"
  by (auto split: option.splits json.splits)

lemma priority_memberships:
  assumes "map_of kvs ''memberships'' = Some (JList ys)"
  shows "first_list_field priority_fields kvs = Some ys"
  unfolding priority_fields_def by (rule first_list_field_hit [OF assms])

lemma priority_items:
  assumes "\<forall>zs. map_of kvs ''memberships'' \<noteq> Some (JList zs)"
    and "map_of kvs ''items'' = Some (JList ys)"
  shows "first_list_field priority_fields kvs = Some ys"
  unfolding priority_fields_def
  by (simp only: first_list_field_skip [OF assms(1)] first_list_field_hit [OF assms(2)])

lemma priority_value:
  assumes "\<forall>zs. map_of kvs ''memberships'' \<noteq> Some (JList zs)"
    and "\<forall>zs. map_of kvs ''items'' \<noteq> Some (JList zs)"
    and "map_of kvs ''value'' = Some (JList ys)"
  shows "first_list_field priority_fields kvs = Some ys"
  unfolding priority_fields_def
  by (simp only: first_list_field_skip [OF assms(1)] first_list_field_skip [OF assms(2)]
      first_list_field_hit [OF assms(3)])

lemma priority_data:
  assumes "\<forall>zs. map_of kvs ''memberships'' \<noteq> Some (JList zs)"
    and "\<forall>zs. map_of kvs ''items'' \<noteq> Some (JList zs)"
    and "\<forall>zs. map_of kvs ''value'' \<noteq> Some (JList zs)"
    and "map_of kvs ''data'' = Some (JList ys)"
  shows "first_list_field priority_fields kvs = Some ys"
  unfolding priority_fields_def
  by (simp only: first_list_field_skip [OF assms(1)] first_list_field_skip [OF assms(2)]
      first_list_field_skip [OF assms(3)] first_list_field_hit [OF assms(4)])

lemma no_priority_field:
  assumes "\<forall>k\<in>{''memberships'', ''items'', ''value'', ''data''}. \<not> (\<exists>ys. map_of kvs k = Some (JList ys))"
  shows "first_list_field priority_fields kvs = None"
proof -
  from assms have n: "\<forall>zs. map_of kvs ''memberships'' \<noteq> Some (JList zs)"
    "\<forall>zs. map_of kvs ''items'' \<noteq> Some (JList zs)"
    "\<forall>zs. map_of kvs ''value'' \<noteq> Some (JList zs)"
    "\<forall>zs. map_of kvs ''data'' \<noteq> Some (JList zs)" by blast+
  show ?thesis
    unfolding priority_fields_def
    by (simp only: first_list_field_skip [OF n(1)] first_list_field_skip [OF n(2)]
        first_list_field_skip [OF n(3)] first_list_field_skip [OF n(4)] first_list_field.simps(1))
qed

lemma membership_login_nested:
  assumes "map_of m ''user'' = Some (JDict u)" "map_of u ''login'' = Some l"
    "l \<notin> {JNull, JBool False, JNum 0, JStr [], JList [], JDict []}"
  shows "membership_login m = l"
proof -
  from assms(3) have t: "truthy l" by (cases l) auto
  from assms(2) have "u \<noteq> []" by auto
  with assms(1,2) t show ?thesis
    by (simp add: membership_login_def py_or_def dict_get_def)
qed

lemma falsy_iff: "(\<not> truthy l) = (l \<in> {JNull, JBool False, JNum 0, JStr [], JList [], JDict []})"
  by (cases l) auto

lemma membership_login_top:
  assumes "\<forall>u l. map_of m ''user'' = Some (JDict u) \<and> map_of u ''login'' = Some l
             \<longrightarrow> l \<in> {JNull, JBool False, JNum 0, JStr [], JList [], JDict []}"
  shows "membership_login m = (case map_of m ''login'' of Some l \<Rightarrow> l | None \<Rightarrow> JNull)"
proof (cases "dict_get m ''user''")
  case (JDict u)
  then have mu: "map_of m ''user'' = Some (JDict u)"
    by (auto simp: dict_get_def split: option.splits)
  have "\<not> truthy (dict_get u ''login'')"
  proof (cases "map_of u ''login''")
    case None
    then show ?thesis by (simp add: dict_get_def)
  next
    case (Some l)
    with assms mu have "l \<in> {JNull, JBool False, JNum 0, JStr [], JList [], JDict []}" by blast
    with Some show ?thesis by (simp add: dict_get_def falsy_iff)
  qed
  with JDict show ?thesis
    by (cases "u = []") (auto simp: membership_login_def py_or_def Let_def dict_get_def)
qed (auto simp: membership_login_def py_or_def Let_def dict_get_def)

text \<open>
  C8.  \<open>extract_memberships\<close> returns a payload that is a sequence as it is.  For a
  mapping it returns the value of \<open>memberships\<close> when that is a sequence, else that of
  \<open>items\<close>, else that of \<open>value\<close>, else that of \<open>data\<close>; when none of the four holds a
  sequence, the first value of the mapping, in its order, that is an empty sequence or a
  sequence whose first element is a mapping; when there is none, and for a payload that is
  neither a sequence nor a mapping, the empty sequence.  For a record that is a mapping,
  the login is the \<open>login\<close> of a nested \<open>user\<close> mapping unless that is missing or falsy
  (\<open>None\<close>, \<open>False\<close>, \<open>0\<close>, an empty string, list or mapping), and then the record's own
  \<open>login\<close>.  A login that is a non-empty string joins the set (as do a non-zero number
  and \<open>True\<close>), a non-empty list or mapping raises \<open>TypeError\<close>, and a record whose login
  is missing or falsy, or that is not a mapping, is skipped.
\<close>

theorem extract_memberships_shapes:
  "extract_memberships (JList xs) = xs
   \<and> (map_of kvs ''memberships'' = Some (JList ys) \<longrightarrow> extract_memberships (JDict kvs) = ys)
   \<and> ((\<forall>zs. map_of kvs ''memberships'' \<noteq> Some (JList zs))
        \<and> map_of kvs ''items'' = Some (JList ys) \<longrightarrow> extract_memberships (JDict kvs) = ys)
   \<and> ((\<forall>zs. map_of kvs ''memberships'' \<noteq> Some (JList zs))
        \<and> (\<forall>zs. map_of kvs ''items'' \<noteq> Some (JList zs))
        \<and> map_of kvs ''value'' = Some (JList ys) \<longrightarrow> extract_memberships (JDict kvs) = ys)
   \<and> ((\<forall>zs. map_of kvs ''memberships'' \<noteq> Some (JList zs))
        \<and> (\<forall>zs. map_of kvs ''items'' \<noteq> Some (JList zs))
        \<and> (\<forall>zs. map_of kvs ''value'' \<noteq> Some (JList zs))
        \<and> map_of kvs ''data'' = Some (JList ys) \<longrightarrow> extract_memberships (JDict kvs) = ys)
   \<and> (\<forall>i v. (\<forall>k\<in>{''memberships'', ''items'', ''value'', ''data''}.
                 \<not> (\<exists>zs. map_of kvs k = Some (JList zs)))
          \<and> i < length kvs \<and> snd (kvs ! i) = JList v
          \<and> (v = [] \<or> (\<exists>d rest. v = JDict d # rest))
          \<and> (\<forall>j<i. \<not> (\<exists>w. snd (kvs ! j) = JList w
                          \<and> (w = [] \<or> (\<exists>d rest. w = JDict d # rest))))
        \<longrightarrow> extract_memberships (JDict kvs) = v)
   \<and> ((\<forall>k\<in>{''memberships'', ''items'', ''value'', ''data''}.
           \<not> (\<exists>zs. map_of kvs k = Some (JList zs)))
        \<and> (\<forall>j<length kvs. \<not> (\<exists>w. snd (kvs ! j) = JList w
                          \<and> (w = [] \<or> (\<exists>d rest. w = JDict d # rest))))
        \<longrightarrow> extract_memberships (JDict kvs) = [])
   \<and> extract_memberships JNull = [] \<and> extract_memberships (JBool b) = []
   \<and> extract_memberships (JNum n) = [] \<and> extract_memberships (JStr s) = []
   \<and> (\<forall>u l. map_of m ''user'' = Some (JDict u) \<and> map_of u ''login'' = Some l
          \<and> l \<notin> {JNull, JBool False, JNum 0, JStr [], JList [], JDict []}
        \<longrightarrow> membership_login m = l)
   \<and> ((\<forall>u l. map_of m ''user'' = Some (JDict u) \<and> map_of u ''login'' = Some l
           \<longrightarrow> l \<in> {JNull, JBool False, JNum 0, JStr [], JList [], JDict []})
        \<longrightarrow> membership_login m = (case map_of m ''login'' of Some l \<Rightarrow> l | None \<Rightarrow> JNull))
   \<and> (\<forall>t. membership_login m = JStr t \<and> t \<noteq> []
        \<longrightarrow> add_memberships (JDict m # ms) S = add_memberships ms (insert (KStr t) S))
   \<and> (\<forall>k. membership_login m = JNum k \<and> k \<noteq> 0
        \<longrightarrow> add_memberships (JDict m # ms) S = add_memberships ms (insert (KNum k) S))
   \<and> (membership_login m = JBool True
        \<longrightarrow> add_memberships (JDict m # ms) S = add_memberships ms (insert (KNum 1) S))
   \<and> (\<forall>x rest. membership_login m = JList (x # rest)
        \<longrightarrow> add_memberships (JDict m # ms) S = Inl TypeError)
   \<and> (\<forall>x rest. membership_login m = JDict (x # rest)
        \<longrightarrow> add_memberships (JDict m # ms) S = Inl TypeError)
   \<and> (membership_login m \<in> {JNull, JBool False, JNum 0, JStr [], JList [], JDict []}
        \<longrightarrow> add_memberships (JDict m # ms) S = add_memberships ms S)
   \<and> ((\<forall>d. r \<noteq> JDict d) \<longrightarrow> add_memberships (r # ms) S = add_memberships ms S)"
proof (intro conjI allI impI)
  show "extract_memberships (JList xs) = xs" by simp
next
  assume "map_of kvs ''memberships'' = Some (JList ys)"
  then have "first_list_field priority_fields kvs = Some ys" by (rule priority_memberships)
  then show "extract_memberships (JDict kvs) = ys" by simp
next
  assume "(\<forall>zs. map_of kvs ''memberships'' \<noteq> Some (JList zs))
        \<and> map_of kvs ''items'' = Some (JList ys)"
  then have "first_list_field priority_fields kvs = Some ys"
    by (intro priority_items) blast+
  then show "extract_memberships (JDict kvs) = ys" by simp
next
  assume "(\<forall>zs. map_of kvs ''memberships'' \<noteq> Some (JList zs))
        \<and> (\<forall>zs. map_of kvs ''items'' \<noteq> Some (JList zs))
        \<and> map_of kvs ''value'' = Some (JList ys)"
  then have "first_list_field priority_fields kvs = Some ys"
    by (intro priority_value) blast+
  then show "extract_memberships (JDict kvs) = ys" by simp
next
  assume "(\<forall>zs. map_of kvs ''memberships'' \<noteq> Some (JList zs))
        \<and> (\<forall>zs. map_of kvs ''items'' \<noteq> Some (JList zs))
        \<and> (\<forall>zs. map_of kvs ''value'' \<noteq> Some (JList zs))
        \<and> map_of kvs ''data'' = Some (JList ys)"
  then have "first_list_field priority_fields kvs = Some ys"
    by (intro priority_data) blast+
  then show "extract_memberships (JDict kvs) = ys" by simp
next
  fix i v
  assume a: "(\<forall>k\<in>{''memberships'', ''items'', ''value'', ''data''}.
                 \<not> (\<exists>zs. map_of kvs k = Some (JList zs)))
          \<and> i < length kvs \<and> snd (kvs ! i) = JList v
          \<and> (v = [] \<or> (\<exists>d rest. v = JDict d # rest))
          \<and> (\<forall>j<i. \<not> (\<exists>w. snd (kvs ! j) = JList w
                          \<and> (w = [] \<or> (\<exists>d rest. w = JDict d # rest))))"
  then have "first_list_field priority_fields kvs = None" by (intro no_priority_field) blast
  moreover from a have "find looks_like_records (map snd kvs) = Some (JList v)"
    by (intro find_records_first [of i]) blast+
  ultimately show "extract_memberships (JDict kvs) = v" by simp
next
  assume a: "(\<forall>k\<in>{''memberships'', ''items'', ''value'', ''data''}.
           \<not> (\<exists>zs. map_of kvs k = Some (JList zs)))
        \<and> (\<forall>j<length kvs. \<not> (\<exists>w. snd (kvs ! j) = JList w
                          \<and> (w = [] \<or> (\<exists>d rest. w = JDict d # rest))))"
  then have "first_list_field priority_fields kvs = None" by (intro no_priority_field) blast
  moreover from a have "find looks_like_records (map snd kvs) = None"
    by (intro find_records_none) blast
  ultimately show "extract_memberships (JDict kvs) = []" by simp
next
  show "extract_memberships JNull = []" by simp
  show "extract_memberships (JBool b) = []" by simp
  show "extract_memberships (JNum n) = []" by simp
  show "extract_memberships (JStr s) = []" by simp
next
  fix u l
  assume "map_of m ''user'' = Some (JDict u) \<and> map_of u ''login'' = Some l
          \<and> l \<notin> {JNull, JBool False, JNum 0, JStr [], JList [], JDict []}"
  then show "membership_login m = l" by (intro membership_login_nested [of m u]) blast+
next
  assume "\<forall>u l. map_of m ''user'' = Some (JDict u) \<and> map_of u ''login'' = Some l
           \<longrightarrow> l \<in> {JNull, JBool False, JNum 0, JStr [], JList [], JDict []}"
  then show "membership_login m = (case map_of m ''login'' of Some l \<Rightarrow> l | None \<Rightarrow> JNull)"
    by (rule membership_login_top)
next
  fix t
  assume "membership_login m = JStr t \<and> t \<noteq> []"
  then show "add_memberships (JDict m # ms) S = add_memberships ms (insert (KStr t) S)" by simp
next
  fix k
  assume "membership_login m = JNum k \<and> k \<noteq> 0"
  then show "add_memberships (JDict m # ms) S = add_memberships ms (insert (KNum k) S)" by simp
next
  assume "membership_login m = JBool True"
  then show "add_memberships (JDict m # ms) S = add_memberships ms (insert (KNum 1) S)" by simp
next
  fix x rest
  assume "membership_login m = JList (x # rest)"
  then show "add_memberships (JDict m # ms) S = Inl TypeError" by simp
next
  fix x rest
  assume "membership_login m = JDict (x # rest)"
  then show "add_memberships (JDict m # ms) S = Inl TypeError" by simp
next
  assume "membership_login m \<in> {JNull, JBool False, JNum 0, JStr [], JList [], JDict []}"
  then show "add_memberships (JDict m # ms) S = add_memberships ms S" by auto
next
  assume "\<forall>d. r \<noteq> JDict d"
  then show "add_memberships (r # ms) S = add_memberships ms S" by (cases r) auto
qed

text \<open>
  The payloads \<open>{"memberships": [{"user": {"login": "alice"}}]}\<close>, \<open>[{"login": "bob"}]\<close>
  and \<open>{"unrelated": "x"}\<close> give alice, bob and nothing.
\<close>

theorem extract_memberships_shapes_example:
  "extract_memberships alice_page = [JDict [(''user'', JDict [(''login'', JStr ''alice'')])]]
   \<and> membership_login [(''user'', JDict [(''login'', JStr ''alice'')])] = JStr ''alice''
   \<and> add_memberships (extract_memberships alice_page) {} = Inr {KStr ''alice''}
   \<and> add_memberships (extract_memberships (JList [JDict [(''login'', JStr ''bob'')]])) {}
       = Inr {KStr ''bob''}
   \<and> add_memberships (extract_memberships (JDict [(''unrelated'', JStr ''x'')])) {} = Inr {}"
proof -
  note t = extract_memberships_shapes [where xs = "[JDict [(''login'', JStr ''bob'')]]"
      and kvs = "[(''memberships'', JList [JDict [(''user'', JDict [(''login'', JStr ''alice'')])]])]"
      and ys = "[JDict [(''user'', JDict [(''login'', JStr ''alice'')])]]"
      and m = "[(''user'', JDict [(''login'', JStr ''alice'')])]" and ms = "[]" and S = "{}"]
  note memberships_field = t [THEN conjunct2, THEN conjunct1]
  note nested_login = t [THEN conjunct2, THEN conjunct2, THEN conjunct2, THEN conjunct2, THEN conjunct2, THEN conjunct2, THEN conjunct2, THEN conjunct2, THEN conjunct2, THEN conjunct2, THEN conjunct2, THEN conjunct1]
  note string_login = t [THEN conjunct2, THEN conjunct2, THEN conjunct2, THEN conjunct2, THEN conjunct2, THEN conjunct2, THEN conjunct2, THEN conjunct2, THEN conjunct2, THEN conjunct2, THEN conjunct2, THEN conjunct2, THEN conjunct2, THEN conjunct1]
  have 1: "extract_memberships alice_page = [JDict [(''user'', JDict [(''login'', JStr ''alice'')])]]"
    using memberships_field unfolding alice_page_def by simp
  have 2: "membership_login [(''user'', JDict [(''login'', JStr ''alice'')])] = JStr ''alice''"
    using nested_login [rule_format, of "[(''login'', JStr ''alice'')]" "JStr ''alice''"] by simp
  have 3: "add_memberships (extract_memberships alice_page) {} = Inr {KStr ''alice''}"
    using string_login [rule_format, of "''alice''"] 1 2 by simp
  have 4: "add_memberships (extract_memberships (JList [JDict [(''login'', JStr ''bob'')]])) {}
       = Inr {KStr ''bob''}" by code_simp
  have 5: "add_memberships (extract_memberships (JDict [(''unrelated'', JStr ''x'')])) {} = Inr {}"
    by code_simp
  from 1 2 3 4 5 show ?thesis by simp
qed

section \<open>The cost-center payload\<close>

text \<open>
  C9.  A 200 answer whose JSON body has a \<open>resources\<close> entry that is not a mapping makes
  \<open>fetch_cost_center_members\<close> raise \<open>AttributeError\<close> at \<open>resources.get\<close>, where the
  claim has it return the empty set: for a list of resources, and for \<open>null\<close>.
\<close>

theorem cost_center_unexpected_shape_raises:
  "fetch_cost_center_members resources_list_service demo_config [] =
     (Inl AttributeError, [cost_center_get])
   \<and> fetch_cost_center_members resources_null_service demo_config [] =
     (Inl AttributeError, [cost_center_get])"
  by code_simp

lemma shadowed_reply:
  "shadowed_users_service [] (get_request demo_config (cost_center_url demo_config)) =
     Response \<lparr>status_code = 200,
       json_body = Some (JDict [(''resources'', JDict []), (''users'', JList [JStr ''a''])]),
       link = None\<rparr>"
  by (simp add: shadowed_users_service_def json_reply_def)

text \<open>
  When the cost-center payload is a mapping with a \<open>resources\<close> key, the users are read
  from the value of that key and from nothing else; when that value is a mapping with no
  \<open>users\<close> entry, the result is the empty set, whatever the top-level \<open>users\<close> holds.
\<close>

lemma resources_key_is_exclusive:
  assumes "tr log (get_request cfg (cost_center_url cfg)) = Response resp"
    and "status_code resp = 200"
    and "json_body resp = Some (JDict kvs)"
    and "map_of kvs ''resources'' = Some resources"
  shows "fetch_cost_center_members tr cfg log =
           (users_of resources, log @ [get_request cfg (cost_center_url cfg)])
         \<and> (\<forall>rs. resources = JDict rs \<and> map_of rs ''users'' = None
              \<longrightarrow> fetch_cost_center_members tr cfg log =
                    (Inr {}, log @ [get_request cfg (cost_center_url cfg)]))"
proof -
  from assms(4) have "''resources'' \<in> fst ` set kvs"
    by (metis domI dom_map_of_conv_image_fst)
  with assms have 1: "fetch_cost_center_members tr cfg log =
           (users_of resources, log @ [get_request cfg (cost_center_url cfg)])"
    by (simp add: fetch_cost_center_members_def Let_def cost_center_logins_def)
  have "\<forall>rs. resources = JDict rs \<and> map_of rs ''users'' = None
      \<longrightarrow> users_of resources = Inr {}"
    by (simp add: users_of_def)
  with 1 show ?thesis by simp
qed

text \<open>\<open>{"resources": {}, "users": ["a"]}\<close> gives the empty set.\<close>

lemma resources_key_is_exclusive_example:
  "fetch_cost_center_members shadowed_users_service demo_config [] = (Inr {}, [cost_center_get])"
  using resources_key_is_exclusive [where tr = shadowed_users_service and log = "[]" and cfg = demo_config
      and resources = "JDict []", OF shadowed_reply]
  by (simp add: cost_center_get_def users_of_def)

text \<open>
  C10.  A payload whose \<open>resources\<close> mapping holds no sequence of users and that has a
  top-level \<open>users\<close> sequence should give the empty set, the top-level sequence being
  ignored.  For \<open>{"resources": {"users": null}, "users": ["a"]}\<close> the top-level sequence
  is ignored, but \<open>resources.get("users", [])\<close> returns \<open>None\<close> and the loop over it raises
  \<open>TypeError\<close>: the fetch fails instead of returning the empty set.
\<close>

theorem users_null_raises:
  "fetch_cost_center_members users_null_service demo_config [] = (Inl TypeError, [cost_center_get])"
  by code_simp

section \<open>The page cap\<close>

lemma str_find_range: "- 1 \<le> str_find c s \<and> str_find c s < int (length s)"
  by (induction s) (auto simp: Let_def)

lemma next_in_parts_nonempty: "next_in_parts parts = Some u \<Longrightarrow> u \<noteq> []"
proof (induction parts)
  case Nil
  then show ?case by simp
next
  case (Cons part parts)
  let ?s = "str_find CHR ''<'' part + 1" and ?e = "str_find CHR ''>'' part"
  show ?case
  proof (cases "contains ''rel=\"next\"'' part \<and> ?s > 0 \<and> ?e > ?s")
    case True
    with Cons.prems have u: "u = slice part ?s ?e" by (simp add: Let_def)
    from str_find_range [of "CHR ''>''" part] True
    have "0 < nat ?e - nat ?s" "nat ?s < length part" by auto
    then have "length (take (nat ?e - nat ?s) (drop (nat ?s) part)) > 0"
      by (simp del: take_eq_Nil)
    with u show ?thesis unfolding slice_def by auto
  next
    case False
    with Cons.prems have "next_in_parts parts = Some u" by (auto simp: Let_def split: if_splits)
    with Cons.IH show ?thesis by simp
  qed
qed

lemma parse_next_link_nonempty: "parse_next_link h = Some u \<Longrightarrow> u \<noteq> []"
  by (auto simp: parse_next_link_def split: option.splits if_splits dest: next_in_parts_nonempty)

lemma add_login_union:
  "add_login v S = (case add_login v {} of Inl e \<Rightarrow> Inl e | Inr L \<Rightarrow> Inr (S \<union> L))"
  by (cases v) auto

lemma add_memberships_union:
  "add_memberships ms S = (case add_memberships ms {} of Inl e \<Rightarrow> Inl e | Inr L \<Rightarrow> Inr (S \<union> L))"
proof (induction ms arbitrary: S)
  case Nil
  show ?case by simp
next
  case (Cons m ms)
  show ?case
  proof (cases m)
    case (JDict r)
    show ?thesis
    proof (cases "add_login (membership_login r) {}")
      case (Inl e)
      with JDict add_login_union [of "membership_login r" S] show ?thesis by simp
    next
      case (Inr L1)
      with add_login_union [of "membership_login r" S]
      have s: "add_login (membership_login r) S = Inr (S \<union> L1)" by simp
      show ?thesis
        using JDict Inr s Cons.IH [of "S \<union> L1"] Cons.IH [of L1]
        by (auto split: sum.splits)
    qed
  qed (use Cons.IH [of S] in auto)
qed

lemma fetch_page_good:
  assumes "tr log (get_request cfg u) = Response resp" "status_code resp = 200"
    "json_body resp = Some payload" "add_memberships (extract_memberships payload) {} = Inr L"
  shows "fetch_page tr cfg u S log =
           (Inr (S \<union> page_logins (tr log (get_request cfg u)), parse_next_link (link resp)),
            log @ [get_request cfg u])"
  using assms add_memberships_union [of "extract_memberships payload" S]
  by (simp add: fetch_page_def page_logins_def Let_def)

lemma fetch_team_pages_cap:
  assumes good: "\<forall>l r. req_verb r = GET \<longrightarrow>
      (\<exists>resp payload logins u. tr l r = Response resp \<and> status_code resp = 200
         \<and> json_body resp = Some payload
         \<and> add_memberships (extract_memberships payload) {} = Inr logins
         \<and> parse_next_link (link resp) = Some u)"
  shows "page + n = 200 \<Longrightarrow> u \<noteq> [] \<Longrightarrow>
    \<exists>new. fetch_team_pages tr cfg (Some u) page S log = (Inr (S \<union> pages_logins tr log new), log @ new)
      \<and> length new = Suc n \<and> (\<forall>r\<in>set new. req_verb r = GET)"
proof (induction n arbitrary: page u S log)
  case 0
  let ?q = "get_request cfg u"
  from good [rule_format, of ?q log] obtain resp payload L u' where
    r: "tr log ?q = Response resp" "status_code resp = 200" "json_body resp = Some payload"
       "add_memberships (extract_memberships payload) {} = Inr L"
       "parse_next_link (link resp) = Some u'" by auto
  note fp = fetch_page_good [where tr = tr, OF r(1-4), of S]
  from fetch_team_pages_step [OF "0.prems"(2) fp, of page] "0.prems"(1)
  have "fetch_team_pages tr cfg (Some u) page S log =
          (Inr (S \<union> pages_logins tr log [?q]), log @ [?q])" by simp
  then show ?case by (intro exI [of _ "[?q]"]) simp
next
  case (Suc n)
  let ?q = "get_request cfg u"
  from good [rule_format, of ?q log] obtain resp payload L u' where
    r: "tr log ?q = Response resp" "status_code resp = 200" "json_body resp = Some payload"
       "add_memberships (extract_memberships payload) {} = Inr L"
       "parse_next_link (link resp) = Some u'" by auto
  note fp = fetch_page_good [where tr = tr, OF r(1-4), of S]
  from parse_next_link_nonempty [OF r(5)] have ne: "u' \<noteq> []" .
  from Suc.prems(1) have pg: "(page + 1) + n = 200" by simp
  from Suc.IH [OF pg ne, of "S \<union> page_logins (tr log ?q)" "log @ [?q]"]
  obtain new where n: "fetch_team_pages tr cfg (Some u') (page + 1) (S \<union> page_logins (tr log ?q)) (log @ [?q])
      = (Inr ((S \<union> page_logins (tr log ?q)) \<union> pages_logins tr (log @ [?q]) new), (log @ [?q]) @ new)"
    "length new = Suc n" "\<forall>r\<in>set new. req_verb r = GET" by blast
  from fetch_team_pages_step [OF Suc.prems(2) fp, of page] Suc.prems(1) r(5) n(1)
  have "fetch_team_pages tr cfg (Some u) page S log =
          (Inr (S \<union> pages_logins tr log (?q # new)), log @ (?q # new))"
    by (simp add: Un_assoc)
  with n(2,3) show ?case by (intro exI [of _ "?q # new"]) simp
qed

text \<open>
  C7.  When every GET is answered with a 200 page whose body is JSON, whose logins can be
  added to the set, and whose link header holds a next cursor, the team fetch returns
  normally after exactly 200 GET requests, with the identifiers of the 200 pages it got.
\<close>

theorem cap_after_200_pages:
  assumes "\<forall>l r. req_verb r = GET \<longrightarrow>
      (\<exists>resp payload logins u. tr l r = Response resp \<and> status_code resp = 200
         \<and> json_body resp = Some payload
         \<and> add_memberships (extract_memberships payload) {} = Inr logins
         \<and> parse_next_link (link resp) = Some u)"
  shows "\<exists>new. fetch_enterprise_team_members tr cfg log = (Inr (pages_logins tr log new), log @ new)
           \<and> length new = 200 \<and> (\<forall>r\<in>set new. req_verb r = GET)"
proof -
  have "team_url cfg \<noteq> []" by (simp add: team_url_def)
  from fetch_team_pages_cap [OF assms, of 1 199, OF _ this, of cfg "{}" log]
  show ?thesis by (simp add: fetch_enterprise_team_members_def)
qed

lemma endless_good: "\<forall>l r. req_verb r = GET \<longrightarrow>
      (\<exists>resp payload logins u. endless_service l r = Response resp \<and> status_code resp = 200
         \<and> json_body resp = Some payload
         \<and> add_memberships (extract_memberships payload) {} = Inr logins
         \<and> parse_next_link (link resp) = Some u)"
proof -
  have "parse_next_link (Some ''<https://api.x/more>; rel=\"next\"'') = Some ''https://api.x/more''"
    by code_simp
  moreover have "add_memberships (extract_memberships (JList [JDict [(''login'', JStr ''a'')]])) {} = Inr {KStr ''a''}"
    by code_simp
  ultimately show ?thesis by (simp add: endless_service_def)
qed

lemma endless_pages:
  "pages_logins endless_service log new = (if new = [] then {} else {KStr ''a''})"
proof (induction new arbitrary: log)
  case Nil
  show ?case by simp
next
  case (Cons req new)
  have "page_logins (endless_service log req) = {KStr ''a''}"
    by (simp add: page_logins_def endless_service_def membership_login_def py_or_def
        dict_get_def)
  with Cons.IH show ?case by simp
qed

text \<open>The service whose pages never end is read 200 times and yields the one login.\<close>

theorem cap_after_200_pages_example:
  "fst (fetch_enterprise_team_members endless_service demo_config []) = Inr {KStr ''a''}
   \<and> length (snd (fetch_enterprise_team_members endless_service demo_config [])) = 200"
proof -
  from cap_after_200_pages [OF endless_good, of demo_config "[]"] obtain new where
    n: "fetch_enterprise_team_members endless_service demo_config [] =
          (Inr (pages_logins endless_service [] new), new)" "length new = 200" by auto
  from n(2) have "new \<noteq> []" by auto
  with n show ?thesis by (simp add: endless_pages)
qed

section \<open>Parsing the link header\<close>

lemma split_on_nonempty: "split_on c s \<noteq> []"
  by (induction s) (auto split: list.splits)

lemma split_on_none: "c \<notin> set xs \<Longrightarrow> split_on c xs = [xs]"
  by (induction xs) auto

lemma split_on_prepend:
  "c \<notin> set xs \<Longrightarrow> split_on c (xs @ ys) = (xs @ hd (split_on c ys)) # tl (split_on c ys)"
proof (induction xs)
  case Nil
  then show ?case using split_on_nonempty [of c ys] by simp
next
  case (Cons x xs)
  then show ?case by auto
qed

lemma split_on_sep:
  "c \<notin> set xs \<Longrightarrow> split_on c (xs @ c # ys) = xs # split_on c ys"
  by (induction xs) auto

lemma descriptor_no_comma:
  "plain_descriptor d \<Longrightarrow> CHR '','' \<notin> set (descriptor d)"
  by (auto simp: plain_descriptor_def descriptor_def)

lemma is_space_comma: "is_space c \<Longrightarrow> c \<noteq> CHR '',''"
  by (auto simp: is_space_def)

lemma split_render:
  assumes "\<forall>c\<in>set ws. is_space c"
  shows "\<forall>d\<in>set (d # ds). plain_descriptor d \<Longrightarrow>
    split_on CHR '','' (render_links ws (d # ds)) = descriptor d # map (\<lambda>d. ws @ descriptor d) ds"
proof (induction ds arbitrary: d)
  case Nil
  then show ?case by (simp add: split_on_none descriptor_no_comma)
next
  case (Cons d' ds)
  from assms have ws: "CHR '','' \<notin> set ws" using is_space_comma by blast
  from Cons.prems have d: "CHR '','' \<notin> set (descriptor d)" by (simp add: descriptor_no_comma)
  from Cons.prems have "\<forall>d\<in>set (d' # ds). plain_descriptor d" by simp
  from Cons.IH [OF this]
  have ih: "split_on CHR '','' (render_links ws (d' # ds)) = descriptor d' # map (\<lambda>d. ws @ descriptor d) ds" .
  have "split_on CHR '','' (descriptor d @ CHR '','' # (ws @ render_links ws (d' # ds)))
      = descriptor d # split_on CHR '','' (ws @ render_links ws (d' # ds))"
    using d by (rule split_on_sep)
  then have "split_on CHR '','' (render_links ws (d # d' # ds))
      = descriptor d # split_on CHR '','' (ws @ render_links ws (d' # ds))"
    by simp
  also have "split_on CHR '','' (ws @ render_links ws (d' # ds))
      = (ws @ descriptor d') # map (\<lambda>d. ws @ descriptor d) ds"
    using split_on_prepend [OF ws, of "render_links ws (d' # ds)"] ih by simp
  finally show ?case by simp
qed

lemma strip_descriptor:
  assumes "\<forall>c\<in>set ws. is_space c"
  shows "strip (ws @ descriptor d) = descriptor d"
proof -
  have 1: "dropWhile is_space (ws @ descriptor d) = descriptor d"
    using assms by (simp add: descriptor_def is_space_def)
  have "rev (descriptor d) = CHR ''\"'' # rev (''<'' @ fst d @ ''>; rel=\"'' @ snd d)"
    by (simp add: descriptor_def)
  then have 2: "dropWhile is_space (rev (descriptor d)) = rev (descriptor d)"
    by (simp add: is_space_def)
  show ?thesis by (simp add: strip_def 1 2)
qed

lemma starts_with_iff: "starts_with sub s = (\<exists>post. s = sub @ post)"
  by (induction sub s rule: starts_with.induct) auto

lemma contains_iff: "contains sub s = (\<exists>pre post. s = pre @ sub @ post)"
proof (induction s)
  case Nil
  show ?case by auto
next
  case (Cons c cs)
  show ?case
  proof
    assume "contains sub (c # cs)"
    then consider "starts_with sub (c # cs)" | "contains sub cs" by auto
    then show "\<exists>pre post. c # cs = pre @ sub @ post"
    proof cases
      case 1
      then obtain post where "c # cs = sub @ post" by (auto simp: starts_with_iff)
      then have "c # cs = [] @ sub @ post" by simp
      then show ?thesis by blast
    next
      case 2
      with Cons.IH obtain pre post where "cs = pre @ sub @ post" by blast
      then have "c # cs = (c # pre) @ sub @ post" by simp
      then show ?thesis by blast
    qed
  next
    assume "\<exists>pre post. c # cs = pre @ sub @ post"
    then obtain pre post where e: "c # cs = pre @ sub @ post" by blast
    show "contains sub (c # cs)"
    proof (cases pre)
      case Nil
      with e have "starts_with sub (c # cs)" by (auto simp: starts_with_iff)
      then show ?thesis by simp
    next
      case (Cons p pre')
      with e have "cs = pre' @ sub @ post" by simp
      with Cons.IH have "contains sub cs" by blast
      then show ?thesis by simp
    qed
  qed
qed

lemma str_find_first: "c \<notin> set xs \<Longrightarrow> str_find c (xs @ c # ys) = int (length xs)"
  by (induction xs) (auto simp: Let_def)

lemma split_at_first:
  "x \<notin> set xs \<Longrightarrow> x \<notin> set ys \<Longrightarrow> xs @ x # xs' = ys @ x # ys' \<Longrightarrow> xs = ys \<and> xs' = ys'"
proof (induction xs arbitrary: ys)
  case Nil
  then show ?case by (cases ys) auto
next
  case (Cons a xs)
  then show ?case by (cases ys) auto
qed

lemma rel_next_in_descriptor:
  assumes "CHR ''\"'' \<notin> set u" "CHR ''\"'' \<notin> set v"
  shows "contains ''rel=\"next\"'' (descriptor (u, v)) = (v = ''next'')"
proof
  assume "v = ''next''"
  then have "descriptor (u, v) = (''<'' @ u @ ''>; '') @ ''rel=\"next\"'' @ []"
    by (simp add: descriptor_def)
  then show "contains ''rel=\"next\"'' (descriptor (u, v))"
    unfolding contains_iff by blast
next
  let ?q = "CHR ''\"''"
  let ?A = "''<'' @ u @ ''>; rel=''"
  assume "contains ''rel=\"next\"'' (descriptor (u, v))"
  then obtain pre post where e: "descriptor (u, v) = pre @ ''rel=\"next\"'' @ post"
    unfolding contains_iff by blast
  have d: "descriptor (u, v) = ?A @ ?q # (v @ [?q])" by (simp add: descriptor_def)
  have A: "?q \<notin> set ?A" using assms(1) by simp
  have cnt: "length (filter (\<lambda>c. c = ?q) (descriptor (u, v))) = 2"
  proof -
    from assms have "filter (\<lambda>c. c = ?q) u = []" "filter (\<lambda>c. c = ?q) v = []"
      by (auto simp: filter_empty_conv)
    then show ?thesis by (simp add: descriptor_def)
  qed
  from e have "length (filter (\<lambda>c. c = ?q) (descriptor (u, v)))
      = length (filter (\<lambda>c. c = ?q) pre) + 2 + length (filter (\<lambda>c. c = ?q) post)"
    by simp
  with cnt have "filter (\<lambda>c. c = ?q) pre = []" "filter (\<lambda>c. c = ?q) post = []" by simp_all
  then have pre: "?q \<notin> set pre" and post: "?q \<notin> set post"
    by (auto simp: filter_empty_conv)
  from e d have eq: "?A @ ?q # (v @ [?q]) = (pre @ ''rel='') @ ?q # (''next'' @ ?q # post)" by simp
  have P: "?q \<notin> set (pre @ ''rel='')" using pre by simp
  from split_at_first [OF A P eq] have "v @ [?q] = ''next'' @ ?q # post" by blast
  moreover have "?q \<notin> set ''next''" by simp
  ultimately have "v = ''next''"
    using split_at_first [OF assms(2), of "''next''" "[]" post] by simp
  then show "v = ''next''" .
qed

lemma next_in_descriptors:
  "\<forall>d\<in>set ds. plain_descriptor d \<Longrightarrow>
   next_in_parts (map descriptor ds) = map_option fst (find (\<lambda>d. snd d = ''next'') ds)"
proof (induction ds)
  case Nil
  show ?case by simp
next
  case (Cons d ds)
  obtain u v where d: "d = (u, v)" by (cases d)
  from Cons.prems d have p: "u \<noteq> []" "CHR ''<'' \<notin> set u" "CHR ''>'' \<notin> set u"
    "CHR ''\"'' \<notin> set u" "CHR ''\"'' \<notin> set v"
    by (auto simp: plain_descriptor_def)
  from Cons have ih: "next_in_parts (map descriptor ds) = map_option fst (find (\<lambda>d. snd d = ''next'') ds)"
    by simp
  have c: "contains ''rel=\"next\"'' (descriptor d) = (v = ''next'')"
    unfolding d using p(4,5) by (rule rel_next_in_descriptor)
  show ?case
  proof (cases "v = ''next''")
    case False
    with c ih d show ?thesis by simp
  next
    case True
    have lt: "str_find CHR ''<'' (descriptor d) = 0"
      by (simp add: descriptor_def)
    have "CHR ''>'' \<notin> set (''<'' @ u)" using p by simp
    then have "str_find CHR ''>'' ((''<'' @ u) @ CHR ''>'' # (''; rel=\"'' @ v @ ''\"''))
        = int (length (''<'' @ u))"
      by (rule str_find_first)
    then have gt: "str_find CHR ''>'' (descriptor d) = 1 + int (length u)"
      by (simp add: descriptor_def d)
    have sl: "slice (descriptor d) 1 (1 + int (length u)) = u"
      by (simp add: slice_def descriptor_def d nat_add_distrib)
    from c True lt gt sl p(1) d show ?thesis by (simp add: Let_def)
  qed
qed

text \<open>
  C6, as the script has it.  For a link header made of plain descriptors separated by a
  comma and whitespace, \<open>parse_next_link\<close> returns the URL of the first descriptor whose
  relation value is exactly \<open>next\<close>, and nothing when there is none; it returns nothing
  for an absent header.
\<close>

theorem parse_next_link_plain_descriptors:
  assumes "\<forall>d\<in>set ds. plain_descriptor d" and "\<forall>c\<in>set ws. is_space c"
  shows "parse_next_link (Some (render_links ws ds)) =
           map_option fst (find (\<lambda>d. snd d = ''next'') ds)
         \<and> parse_next_link None = None"
proof (cases ds)
  case Nil
  then show ?thesis by (simp add: parse_next_link_def)
next
  case (Cons d ds')
  have ne: "render_links ws (d # ds') \<noteq> []"
    by (cases ds') (simp_all add: descriptor_def)
  from assms(1) Cons have pl: "\<forall>d\<in>set (d # ds'). plain_descriptor d" by simp
  have "map strip (split_on CHR '','' (render_links ws (d # ds'))) = map descriptor (d # ds')"
    using strip_descriptor [OF assms(2)] strip_descriptor [of "[]"]
    by (simp add: split_render [OF assms(2) pl] o_def)
  with ne Cons next_in_descriptors [OF assms(1)] show ?thesis
    by (simp add: parse_next_link_def)
qed

text \<open>The header of the pagination test: page 2 is next, page 1 is prev.\<close>

theorem parse_next_link_example:
  "parse_next_link
     (Some ''<https://api.x/y?page=2>; rel=\"next\", <https://api.x/y?page=1>; rel=\"prev\"'')
   = Some ''https://api.x/y?page=2''"
proof -
  have 1: "\<forall>d\<in>set [(''https://api.x/y?page=2'', ''next''), (''https://api.x/y?page=1'', ''prev'')].
            plain_descriptor d"
    by (simp add: plain_descriptor_def)
  have 2: "\<forall>c\<in>set '' ''. is_space c" by (simp add: is_space_def)
  from parse_next_link_plain_descriptors [OF 1 2] show ?thesis by (simp add: descriptor_def)
qed

text \<open>
  A URL that holds a comma is cut in two by \<open>split(",")\<close>: neither half has both the
  opening bracket and \<open>rel="next"\<close>, and nothing is returned although the only descriptor
  has the relation value \<open>next\<close>.
\<close>

theorem comma_in_url_breaks_next_link:
  "parse_next_link (Some (render_links '' '' [(''https://api.x/y?ids=1,2'', ''next'')])) = None
   \<and> render_links '' '' [(''https://api.x/y?ids=1,2'', ''next'')]
       = ''<https://api.x/y?ids=1,2>; rel=\"next\"''"
  by code_simp

end
